theory Spec2Isabelle
  imports Main "HOL-Library.Word" "HOL-Library.Multiset"
begin

section \<open>Machine model: \<open>size_t\<close> arithmetic and undefined behaviour\<close>

text \<open>
  \<open>size_t\<close> is an unsigned 64-bit integer. Its values are modelled as natural numbers
  and every addition and subtraction of the source is written with the wrap-around
  modulo \<open>2 ^ 64\<close>.
\<close>

definition size_range :: nat where
  "size_range = 2 ^ 64"

definition size_add :: "nat \<Rightarrow> nat \<Rightarrow> nat" where
  "size_add a b = (a + b) mod size_range"

definition size_sub :: "nat \<Rightarrow> nat \<Rightarrow> nat" where
  "size_sub a b = (a + size_range - b mod size_range) mod size_range"

type_synonym byte = "8 word"

text \<open>
  The source indexes its vector and the caller's arrays without a bounds check, and takes
  remainders by the capacity. An index out of range and a zero divisor are undefined
  behaviour in C++; the model returns them as faults instead of hiding them.
\<close>

datatype fault = OutOfRange | DivisionByZero

section \<open>The circular buffer with a full flag (Buffer.h, Buffer.cpp)\<close>

text \<open>
  A member function \<open>Buffer::f\<close> is the constant \<open>Buffer_f\<close>; it takes the object
  last and returns it when it changes it. The mutex every member function holds plays no
  part in the calls of a single thread and is left out.
\<close>

record Buffer =
  mBuffer :: "byte list"
  mHead :: nat
  mTail :: nat
  mIsFull :: bool
  mCapacity :: nat

text \<open>The constructor: a zero-filled vector of \<open>capacityBytes\<close> bytes, both cursors at 0.\<close>

definition new_Buffer :: "nat \<Rightarrow> Buffer" where
  "new_Buffer capacityBytes =
     \<lparr>mBuffer = replicate capacityBytes 0, mHead = 0, mTail = 0, mIsFull = False,
      mCapacity = capacityBytes\<rparr>"

definition Buffer_getAvailableInternal :: "Buffer \<Rightarrow> nat" where
  "Buffer_getAvailableInternal b =
     (if mIsFull b then mCapacity b
      else if mHead b \<ge> mTail b then size_sub (mHead b) (mTail b)
      else size_add (size_sub (mCapacity b) (mTail b)) (mHead b))"

definition Buffer_isFullInternal :: "Buffer \<Rightarrow> bool" where
  "Buffer_isFullInternal b = mIsFull b"

definition Buffer_isEmptyInternal :: "Buffer \<Rightarrow> bool" where
  "Buffer_isEmptyInternal b = (\<not> mIsFull b \<and> mHead b = mTail b)"

definition Buffer_available :: "Buffer \<Rightarrow> nat" where
  "Buffer_available b = Buffer_getAvailableInternal b"

definition Buffer_capacity :: "Buffer \<Rightarrow> nat" where
  "Buffer_capacity b = mCapacity b"

definition Buffer_clear :: "Buffer \<Rightarrow> Buffer" where
  "Buffer_clear b = b\<lparr>mHead := 0, mTail := 0, mIsFull := False\<rparr>"

text \<open>
  The copy loop of \<open>write\<close>: \<open>for (i = 0; i < toWrite; ++i)\<close>, storing \<open>data[i]\<close> at the
  head and advancing the head modulo the capacity. \<open>data\<close> is the caller's array.
  The counter \<open>i\<close> stays below \<open>toWrite\<close>, itself a \<open>size_t\<close>, so \<open>++i\<close> never wraps.
\<close>

function Buffer_write_loop :: "byte list \<Rightarrow> nat \<Rightarrow> nat \<Rightarrow> Buffer \<Rightarrow> fault + Buffer" where
  "Buffer_write_loop data i toWrite b =
     (if i < toWrite then
        (if length data \<le> i \<or> length (mBuffer b) \<le> mHead b then Inl OutOfRange
         else if mCapacity b = 0 then Inl DivisionByZero
         else Buffer_write_loop data (i + 1) toWrite
                (b\<lparr>mBuffer := (mBuffer b)[mHead b := data ! i],
                   mHead := size_add (mHead b) 1 mod mCapacity b\<rparr>))
      else Inr b)"
  by pat_completeness auto
termination
  by (relation "measure (\<lambda>(data, i, toWrite, b). toWrite - i)") auto

declare Buffer_write_loop.simps [simp del]

text \<open>
  \<open>write(data, len)\<close>: the pair of results is the returned count and the buffer after
  the call.
\<close>

definition Buffer_write :: "byte list \<Rightarrow> nat \<Rightarrow> Buffer \<Rightarrow> fault + (nat \<times> Buffer)" where
  "Buffer_write data len b =
     (let freeSpace = size_sub (mCapacity b) (Buffer_getAvailableInternal b);
          toWrite = min len freeSpace
      in if toWrite = 0 then Inr (0, b)
         else (case Buffer_write_loop data 0 toWrite b of
                 Inl e \<Rightarrow> Inl e
               | Inr b' \<Rightarrow>
                   Inr (toWrite,
                        if mHead b' = mTail b' \<and> toWrite > 0 then b'\<lparr>mIsFull := True\<rparr>
                        else b')))"

text \<open>
  The copy loop of \<open>read\<close>: \<open>dest[i] = mBuffer[mTail]\<close>, then the tail advances modulo
  the capacity. \<open>dest\<close> is the caller's array, returned updated.
\<close>

function Buffer_read_loop :: "byte list \<Rightarrow> nat \<Rightarrow> nat \<Rightarrow> Buffer \<Rightarrow> fault + (byte list \<times> Buffer)" where
  "Buffer_read_loop dest i toRead b =
     (if i < toRead then
        (if length dest \<le> i \<or> length (mBuffer b) \<le> mTail b then Inl OutOfRange
         else if mCapacity b = 0 then Inl DivisionByZero
         else Buffer_read_loop (dest[i := mBuffer b ! mTail b]) (i + 1) toRead
                (b\<lparr>mTail := size_add (mTail b) 1 mod mCapacity b\<rparr>))
      else Inr (dest, b))"
  by pat_completeness auto
termination
  by (relation "measure (\<lambda>(dest, i, toRead, b). toRead - i)") auto

declare Buffer_read_loop.simps [simp del]

text \<open>
  \<open>read(dest, len)\<close>: the results are the returned count, the caller's array after the
  call and the buffer after the call.
\<close>

definition Buffer_read :: "byte list \<Rightarrow> nat \<Rightarrow> Buffer \<Rightarrow> fault + (nat \<times> byte list \<times> Buffer)" where
  "Buffer_read dest len b =
     (let avail = Buffer_getAvailableInternal b;
          toRead = min len avail
      in if toRead = 0 then Inr (0, dest, b)
         else (case Buffer_read_loop dest 0 toRead b of
                 Inl e \<Rightarrow> Inl e
               | Inr (dest', b') \<Rightarrow> Inr (toRead, dest', b'\<lparr>mIsFull := False\<rparr>)))"

section \<open>The circular buffer with an occupied count (the other Buffer.cpp)\<close>

text \<open>
  The repository holds a second \<open>Buffer.cpp\<close> of the same class, which keeps the number
  of occupied bytes in \<open>m_dataAvailable\<close> and copies in blocks. Its members are prefixed
  \<open>CountBuffer\<close> here, to tell the two apart.
\<close>

record CountBuffer =
  m_buffer :: "byte list"
  m_readPos :: nat
  m_writePos :: nat
  m_dataAvailable :: nat
  m_capacity :: nat

definition new_CountBuffer :: "nat \<Rightarrow> CountBuffer" where
  "new_CountBuffer sz =
     \<lparr>m_buffer = replicate sz 0, m_readPos = 0, m_writePos = 0, m_dataAvailable = 0,
      m_capacity = sz\<rparr>"

text \<open>
  \<open>std::memcpy(dst + doff, src + soff, n)\<close> on two arrays that do not overlap: \<open>n\<close>
  bytes of \<open>src\<close> from offset \<open>soff\<close> replace the \<open>n\<close> bytes of \<open>dst\<close> from offset
  \<open>doff\<close>. Copying outside either array is undefined behaviour.
\<close>

definition memcpy :: "byte list \<Rightarrow> nat \<Rightarrow> byte list \<Rightarrow> nat \<Rightarrow> nat \<Rightarrow> fault + byte list" where
  "memcpy dst doff src soff n =
     (if length dst < doff + n \<or> length src < soff + n then Inl OutOfRange
      else Inr (take doff dst @ take n (drop soff src) @ drop (doff + n) dst))"

text \<open>
  \<open>write(data, len)\<close>. The expressions \<open>&m_buffer[m_writePos]\<close> and \<open>&m_buffer[0]\<close> index
  the vector, so each needs its index below the size.
\<close>

definition CountBuffer_write :: "byte list \<Rightarrow> nat \<Rightarrow> CountBuffer \<Rightarrow> fault + (nat \<times> CountBuffer)" where
  "CountBuffer_write data len b =
     (let freeSpace = size_sub (m_capacity b) (m_dataAvailable b);
          toWrite = min len freeSpace
      in if toWrite = 0 then Inr (0, b)
         else
           (let spaceAtEnd = size_sub (m_capacity b) (m_writePos b);
                chunk1 = min toWrite spaceAtEnd
            in if length (m_buffer b) \<le> m_writePos b then Inl OutOfRange
               else (case memcpy (m_buffer b) (m_writePos b) data 0 chunk1 of
                       Inl e \<Rightarrow> Inl e
                     | Inr buf1 \<Rightarrow>
                         (case (if chunk1 < toWrite
                                then (let chunk2 = size_sub toWrite chunk1
                                      in if buf1 = [] then Inl OutOfRange
                                         else memcpy buf1 0 data chunk1 chunk2)
                                else Inr buf1) of
                            Inl e \<Rightarrow> Inl e
                          | Inr buf2 \<Rightarrow>
                              if m_capacity b = 0 then Inl DivisionByZero
                              else Inr (toWrite,
                                        b\<lparr>m_buffer := buf2,
                                          m_writePos :=
                                            size_add (m_writePos b) toWrite mod m_capacity b,
                                          m_dataAvailable :=
                                            size_add (m_dataAvailable b) toWrite\<rparr>)))))"

definition CountBuffer_read :: "byte list \<Rightarrow> nat \<Rightarrow> CountBuffer \<Rightarrow> fault + (nat \<times> byte list \<times> CountBuffer)" where
  "CountBuffer_read dest len b =
     (let toRead = min len (m_dataAvailable b)
      in if toRead = 0 then Inr (0, dest, b)
         else
           (let dataAtEnd = size_sub (m_capacity b) (m_readPos b);
                chunk1 = min toRead dataAtEnd
            in if length (m_buffer b) \<le> m_readPos b then Inl OutOfRange
               else (case memcpy dest 0 (m_buffer b) (m_readPos b) chunk1 of
                       Inl e \<Rightarrow> Inl e
                     | Inr dest1 \<Rightarrow>
                         (case (if chunk1 < toRead
                                then (let chunk2 = size_sub toRead chunk1
                                      in if m_buffer b = [] then Inl OutOfRange
                                         else memcpy dest1 chunk1 (m_buffer b) 0 chunk2)
                                else Inr dest1) of
                            Inl e \<Rightarrow> Inl e
                          | Inr dest2 \<Rightarrow>
                              if m_capacity b = 0 then Inl DivisionByZero
                              else Inr (toRead, dest2,
                                        b\<lparr>m_readPos :=
                                            size_add (m_readPos b) toRead mod m_capacity b,
                                          m_dataAvailable :=
                                            size_sub (m_dataAvailable b) toRead\<rparr>)))))"

definition CountBuffer_getAvailable :: "CountBuffer \<Rightarrow> nat" where
  "CountBuffer_getAvailable b = m_dataAvailable b"

definition CountBuffer_getFreeSpace :: "CountBuffer \<Rightarrow> nat" where
  "CountBuffer_getFreeSpace b = size_sub (m_capacity b) (m_dataAvailable b)"

definition CountBuffer_clear :: "CountBuffer \<Rightarrow> CountBuffer" where
  "CountBuffer_clear b = b\<lparr>m_readPos := 0, m_writePos := 0, m_dataAvailable := 0\<rparr>"

section \<open>The thread-safe queue (ThreadSafeQueue.h)\<close>

text \<open>
  \<open>std::queue<T>\<close> is the list of its elements, front first. Every member function holds
  the mutex for its whole body, so a call by one thread is a function of the queue.
\<close>

record 'a ThreadSafeQueue =
  mQueue :: "'a list"

definition new_ThreadSafeQueue :: "'a ThreadSafeQueue" where
  "new_ThreadSafeQueue = \<lparr>mQueue = []\<rparr>"

definition ThreadSafeQueue_push :: "'a \<Rightarrow> 'a ThreadSafeQueue \<Rightarrow> 'a ThreadSafeQueue" where
  "ThreadSafeQueue_push v q = q\<lparr>mQueue := mQueue q @ [v]\<rparr>"

text \<open>
  \<open>tryPop(value)\<close>: the results are the returned flag, the caller's variable after the
  call and the queue after the call.
\<close>

definition ThreadSafeQueue_tryPop :: "'a \<Rightarrow> 'a ThreadSafeQueue \<Rightarrow> bool \<times> 'a \<times> 'a ThreadSafeQueue" where
  "ThreadSafeQueue_tryPop v q =
     (if mQueue q = [] then (False, v, q)
      else (True, hd (mQueue q), q\<lparr>mQueue := tl (mQueue q)\<rparr>))"

text \<open>
  \<open>waitAndPop(value)\<close> called when no other thread runs: the wait returns at once when
  the queue is not empty; on an empty queue the caller sleeps on the condition variable
  and, with nobody to push, never returns, which is the result \<open>None\<close>.
\<close>

definition ThreadSafeQueue_waitAndPop :: "'a \<Rightarrow> 'a ThreadSafeQueue \<Rightarrow> ('a \<times> 'a ThreadSafeQueue) option" where
  "ThreadSafeQueue_waitAndPop v q =
     (if mQueue q = [] then None
      else Some (hd (mQueue q), q\<lparr>mQueue := tl (mQueue q)\<rparr>))"

definition ThreadSafeQueue_empty :: "'a ThreadSafeQueue \<Rightarrow> bool" where
  "ThreadSafeQueue_empty q = (mQueue q = [])"

section \<open>Sequences of calls by one thread\<close>

text \<open>
  A caller's sequence of calls on one buffer, and what each call hands back: the count
  returned by \<open>write\<close>, the count returned by \<open>read\<close> with the caller's array after the
  call, and the value of \<open>available()\<close>. A fault ends the sequence.
\<close>

datatype buffer_op = Write "byte list" nat | Read "byte list" nat | Clear | Available

datatype buffer_event = Written nat | ReadOut nat "byte list" | Cleared | Avail nat

fun Buffer_step :: "buffer_op \<Rightarrow> Buffer \<Rightarrow> fault + (buffer_event \<times> Buffer)" where
  "Buffer_step (Write data len) b =
     (case Buffer_write data len b of
        Inl e \<Rightarrow> Inl e
      | Inr (n, b') \<Rightarrow> Inr (Written n, b'))"
| "Buffer_step (Read dest len) b =
     (case Buffer_read dest len b of
        Inl e \<Rightarrow> Inl e
      | Inr (n, dest', b') \<Rightarrow> Inr (ReadOut n dest', b'))"
| "Buffer_step Clear b = Inr (Cleared, Buffer_clear b)"
| "Buffer_step Available b = Inr (Avail (Buffer_available b), b)"

fun Buffer_run :: "buffer_op list \<Rightarrow> Buffer \<Rightarrow> fault + (buffer_event list \<times> Buffer)" where
  "Buffer_run [] b = Inr ([], b)"
| "Buffer_run (x # xs) b =
     (case Buffer_step x b of
        Inl e \<Rightarrow> Inl e
      | Inr (ev, b') \<Rightarrow>
          (case Buffer_run xs b' of
             Inl e \<Rightarrow> Inl e
           | Inr (evs, b'') \<Rightarrow> Inr (ev # evs, b'')))"

fun CountBuffer_step :: "buffer_op \<Rightarrow> CountBuffer \<Rightarrow> fault + (buffer_event \<times> CountBuffer)" where
  "CountBuffer_step (Write data len) b =
     (case CountBuffer_write data len b of
        Inl e \<Rightarrow> Inl e
      | Inr (n, b') \<Rightarrow> Inr (Written n, b'))"
| "CountBuffer_step (Read dest len) b =
     (case CountBuffer_read dest len b of
        Inl e \<Rightarrow> Inl e
      | Inr (n, dest', b') \<Rightarrow> Inr (ReadOut n dest', b'))"
| "CountBuffer_step Clear b = Inr (Cleared, CountBuffer_clear b)"
| "CountBuffer_step Available b = Inr (Avail (CountBuffer_getAvailable b), b)"

fun CountBuffer_run :: "buffer_op list \<Rightarrow> CountBuffer \<Rightarrow> fault + (buffer_event list \<times> CountBuffer)" where
  "CountBuffer_run [] b = Inr ([], b)"
| "CountBuffer_run (x # xs) b =
     (case CountBuffer_step x b of
        Inl e \<Rightarrow> Inl e
      | Inr (ev, b') \<Rightarrow>
          (case CountBuffer_run xs b' of
             Inl e \<Rightarrow> Inl e
           | Inr (evs, b'') \<Rightarrow> Inr (ev # evs, b'')))"

text \<open>A call is well-formed when the caller's array holds at least \<open>len\<close> bytes.\<close>

fun buffer_op_ok :: "buffer_op \<Rightarrow> bool" where
  "buffer_op_ok (Write data len) = (len \<le> length data)"
| "buffer_op_ok (Read dest len) = (len \<le> length dest)"
| "buffer_op_ok Clear = True"
| "buffer_op_ok Available = True"

text \<open>
  The ledger of a sequence of calls: the counts returned by the writes minus the counts
  returned by the reads, since the start or the last \<open>clear()\<close>.
\<close>

fun ledger_step :: "int \<Rightarrow> buffer_event \<Rightarrow> int" where
  "ledger_step acc (Written n) = acc + int n"
| "ledger_step acc (ReadOut n dest) = acc - int n"
| "ledger_step acc Cleared = 0"
| "ledger_step acc (Avail n) = acc"

definition ledger :: "buffer_event list \<Rightarrow> int" where
  "ledger evs = foldl ledger_step 0 evs"

text \<open>
  A thread's sequence of calls on one queue. \<open>v\<close> is the caller's variable that
  \<open>tryPop\<close> and \<open>waitAndPop\<close> assign. The result is \<open>None\<close> when a \<open>waitAndPop\<close> never
  returns.
\<close>

datatype 'a queue_op = Push 'a | TryPop | WaitAndPop

datatype 'a queue_event = Pushed | Popped 'a | NotFound

fun queue_run :: "'a queue_op list \<Rightarrow> 'a \<Rightarrow> 'a ThreadSafeQueue \<Rightarrow>
    ('a queue_event list \<times> 'a \<times> 'a ThreadSafeQueue) option" where
  "queue_run [] v q = Some ([], v, q)"
| "queue_run (Push x # ops) v q =
     (case queue_run ops v (ThreadSafeQueue_push x q) of
        None \<Rightarrow> None
      | Some (evs, r) \<Rightarrow> Some (Pushed # evs, r))"
| "queue_run (TryPop # ops) v q =
     (case ThreadSafeQueue_tryPop v q of
        (found, v', q') \<Rightarrow>
          (case queue_run ops v' q' of
             None \<Rightarrow> None
           | Some (evs, r) \<Rightarrow> Some ((if found then Popped v' else NotFound) # evs, r)))"
| "queue_run (WaitAndPop # ops) v q =
     (case ThreadSafeQueue_waitAndPop v q of
        None \<Rightarrow> None
      | Some (v', q') \<Rightarrow>
          (case queue_run ops v' q' of
             None \<Rightarrow> None
           | Some (evs, r) \<Rightarrow> Some (Popped v' # evs, r)))"

fun pushed :: "'a queue_op list \<Rightarrow> 'a list" where
  "pushed [] = []"
| "pushed (Push x # ops) = x # pushed ops"
| "pushed (TryPop # ops) = pushed ops"
| "pushed (WaitAndPop # ops) = pushed ops"

fun popped :: "'a queue_event list \<Rightarrow> 'a list" where
  "popped [] = []"
| "popped (Popped x # evs) = x # popped evs"
| "popped (Pushed # evs) = popped evs"
| "popped (NotFound # evs) = popped evs"

text \<open>
  \<open>never_waits ops n\<close>: run on a queue of \<open>n\<close> values, every \<open>waitAndPop\<close> of \<open>ops\<close>
  finds a value.
\<close>

fun never_waits :: "'a queue_op list \<Rightarrow> nat \<Rightarrow> bool" where
  "never_waits [] n = True"
| "never_waits (Push x # ops) n = never_waits ops (Suc n)"
| "never_waits (TryPop # ops) n = never_waits ops (n - 1)"
| "never_waits (WaitAndPop # ops) n = (0 < n \<and> never_waits ops (n - 1))"

section \<open>Calls by several threads\<close>

text \<open>
  Every member function of the queue holds the mutex while it reads or changes \<open>mQueue\<close>,
  so the calls of concurrently running threads take effect one at a time, in an order
  that keeps the order of each thread's own calls: an interleaving of the threads' call
  sequences. \<open>waitAndPop\<close> takes effect when it pops, which its wait allows only on a
  queue that is not empty; \<open>never_waits\<close> says so of an interleaving.
\<close>

fun interleavings :: "'a list list \<Rightarrow> 'a list set" where
  "interleavings [] = {[]}"
| "interleavings (t # ts) = (\<Union>zs \<in> interleavings ts. shuffles t zs)"

section \<open>Abstraction and invariant\<close>

text \<open>
  \<open>ring_put buf h xs\<close> stores the bytes \<open>xs\<close> one after the other from index \<open>h\<close> on,
  wrapping to index 0 at the end of the storage.
\<close>

fun ring_put :: "'a list \<Rightarrow> nat \<Rightarrow> 'a list \<Rightarrow> 'a list" where
  "ring_put buf h [] = buf"
| "ring_put buf h (x # xs) = ring_put (buf[h := x]) (Suc h mod length buf) xs"

text \<open>
  The representation invariant of the full-flag buffer: the vector has \<open>mCapacity\<close>
  elements, the capacity is a \<open>size_t\<close>, both cursors are valid indices (or 0 when the
  capacity is 0), and the full flag is only set when the cursors coincide. The constructor
  establishes it and every call keeps it (lemma \<open>Buffer_wf_reachable\<close> below).
\<close>

definition Buffer_wf :: "Buffer \<Rightarrow> bool" where
  "Buffer_wf b \<longleftrightarrow>
     length (mBuffer b) = mCapacity b \<and> mCapacity b < size_range \<and>
     (if mCapacity b = 0 then mHead b = 0 \<and> mTail b = 0 \<and> \<not> mIsFull b
      else mHead b < mCapacity b \<and> mTail b < mCapacity b \<and>
           (mIsFull b \<longrightarrow> mHead b = mTail b))"

text \<open>
  The byte stream held by the buffer: the \<open>available()\<close> bytes found from the tail on,
  wrapping at the end of the storage, oldest first.
\<close>

definition Buffer_contents :: "Buffer \<Rightarrow> byte list" where
  "Buffer_contents b = take (Buffer_getAvailableInternal b) (rotate (mTail b) (mBuffer b))"

text \<open>
  The same for the buffer with an occupied count. \<open>std::vector<uint8_t>\<close> cannot have
  more than \<open>max_size()\<close> elements, which is at most \<open>PTRDIFF_MAX\<close>, so a constructed
  vector has fewer than \<open>2 ^ 63\<close> bytes.
\<close>

definition vector_max_size :: nat where
  "vector_max_size = 2 ^ 63 - 1"

definition CountBuffer_wf :: "CountBuffer \<Rightarrow> bool" where
  "CountBuffer_wf b \<longleftrightarrow>
     length (m_buffer b) = m_capacity b \<and> m_capacity b \<le> vector_max_size \<and>
     m_dataAvailable b \<le> m_capacity b \<and>
     (if m_capacity b = 0 then m_readPos b = 0 \<and> m_writePos b = 0
      else m_readPos b < m_capacity b \<and>
           m_writePos b = (m_readPos b + m_dataAvailable b) mod m_capacity b)"

definition CountBuffer_contents :: "CountBuffer \<Rightarrow> byte list" where
  "CountBuffer_contents b = take (m_dataAvailable b) (rotate (m_readPos b) (m_buffer b))"

text \<open>
  The contract of the specification, on the byte stream alone: a buffer of capacity \<open>C\<close>
  holding the bytes \<open>xs\<close> accepts as many bytes as there is room for, hands out the
  oldest bytes first, and \<open>available()\<close> is the length of the stream.
\<close>

fun spec_step :: "nat \<Rightarrow> buffer_op \<Rightarrow> byte list \<Rightarrow> buffer_event \<times> byte list" where
  "spec_step C (Write data len) xs =
     (let n = min len (C - length xs) in (Written n, xs @ take n data))"
| "spec_step C (Read dest len) xs =
     (let n = min len (length xs) in (ReadOut n (take n xs @ drop n dest), drop n xs))"
| "spec_step C Clear xs = (Cleared, [])"
| "spec_step C Available xs = (Avail (length xs), xs)"

fun spec_run :: "nat \<Rightarrow> buffer_op list \<Rightarrow> byte list \<Rightarrow> buffer_event list \<times> byte list" where
  "spec_run C [] xs = ([], xs)"
| "spec_run C (x # ops) xs =
     (case spec_step C x xs of
        (ev, xs') \<Rightarrow> (case spec_run C ops xs' of (evs, xs'') \<Rightarrow> (ev # evs, xs'')))"

section \<open>Lemmas: both buffers refine the byte-stream contract\<close>

lemma size_add_eq: "a + b < size_range \<Longrightarrow> size_add a b = a + b"
  by (simp add: size_add_def)

lemma size_sub_eq:
  assumes "b \<le> a" "a < size_range"
  shows "size_sub a b = a - b"
proof -
  have "b mod size_range = b" using assms by simp
  moreover have "a + size_range - b = (a - b) + size_range" using assms by simp
  moreover have "(a - b) mod size_range = a - b" using assms by simp
  ultimately show ?thesis unfolding size_sub_def by (simp only: mod_add_self2)
qed

lemma length_ring_put [simp]: "length (ring_put buf h xs) = length buf"
  by (induction xs arbitrary: buf h) simp_all

lemma mod_shift_neq:
  fixes t :: nat
  assumes "k < a" "a < L"
  shows "(t + k) mod L \<noteq> (t + a) mod L"
proof
  assume "(t + k) mod L = (t + a) mod L"
  then have "L dvd (t + a) - (t + k)"
    using assms mod_eq_dvd_iff_nat [of "t + k" "t + a" L] by simp
  then have "L dvd a - k" by simp
  then show False using assms by (auto dest: dvd_imp_le)
qed

lemma rotate_update_last:
  assumes "a < length buf"
  shows "take (Suc a) (rotate t (buf[(t + a) mod length buf := x])) = take a (rotate t buf) @ [x]"
proof (rule nth_equalityI)
  show "length (take (Suc a) (rotate t (buf[(t + a) mod length buf := x]))) = length (take a (rotate t buf) @ [x])"
    using assms by simp
next
  fix k assume "k < length (take (Suc a) (rotate t (buf[(t + a) mod length buf := x])))"
  then have k: "k \<le> a" using assms by simp
  show "take (Suc a) (rotate t (buf[(t + a) mod length buf := x])) ! k = (take a (rotate t buf) @ [x]) ! k"
  proof (cases "k = a")
    case True
    have "0 < length buf" using assms by linarith
    then have "(t + a) mod length buf < length buf" by (rule mod_less_divisor)
    then show ?thesis using assms True by (simp add: nth_rotate nth_append)
  next
    case False
    then have "k < a" using k by simp
    then show ?thesis using assms mod_shift_neq[of k a "length buf" t]
      by (simp add: nth_rotate nth_append)
  qed
qed

lemma ring_put_window:
  assumes "a + length xs \<le> length buf" "h = (t + a) mod length buf"
  shows "take (a + length xs) (rotate t (ring_put buf h xs)) = take a (rotate t buf) @ xs"
  using assms
proof (induction xs arbitrary: buf h a)
  case Nil
  then show ?case by simp
next
  case (Cons x xs)
  have a: "a < length buf" using Cons.prems by simp
  have "take (Suc a + length xs) (rotate t (ring_put (buf[h := x]) (Suc h mod length buf) xs))
        = take (Suc a) (rotate t (buf[h := x])) @ xs"
    using Cons.prems by (intro Cons.IH) (simp_all add: mod_Suc_eq)
  then show ?case using a Cons.prems(2) by (simp add: rotate_update_last)
qed

lemma avail_nat:
  assumes "Buffer_wf b"
  shows "Buffer_getAvailableInternal b =
           (if mIsFull b then mCapacity b
            else if mTail b \<le> mHead b then mHead b - mTail b
            else mCapacity b - mTail b + mHead b)"
proof (cases "mCapacity b = 0")
  case True
  then show ?thesis using assms
    by (simp add: Buffer_wf_def Buffer_getAvailableInternal_def size_sub_eq)
next
  case False
  then have b: "mHead b < mCapacity b" "mTail b < mCapacity b" "mCapacity b < size_range"
    using assms by (simp_all add: Buffer_wf_def)
  have 1: "mTail b \<le> mHead b \<Longrightarrow> size_sub (mHead b) (mTail b) = mHead b - mTail b"
    using b by (simp add: size_sub_eq)
  have 2: "size_sub (mCapacity b) (mTail b) = mCapacity b - mTail b"
    using b by (simp add: size_sub_eq)
  have 3: "\<not> mTail b \<le> mHead b \<Longrightarrow>
      size_add (mCapacity b - mTail b) (mHead b) = mCapacity b - mTail b + mHead b"
    using b by (simp add: size_add_eq)
  show ?thesis using 1 2 3 by (simp add: Buffer_getAvailableInternal_def)
qed

lemma avail_char:
  assumes "Buffer_wf b" "0 < mCapacity b"
  shows "Buffer_getAvailableInternal b \<le> mCapacity b"
    and "(mTail b + Buffer_getAvailableInternal b) mod mCapacity b = mHead b"
    and "Buffer_getAvailableInternal b = mCapacity b \<longleftrightarrow> mIsFull b"
proof -
  have b: "mHead b < mCapacity b" "mTail b < mCapacity b" "mIsFull b \<Longrightarrow> mHead b = mTail b"
    using assms by (simp_all add: Buffer_wf_def)
  show "Buffer_getAvailableInternal b \<le> mCapacity b"
    using b by (auto simp add: avail_nat [OF assms(1)])
  show "Buffer_getAvailableInternal b = mCapacity b \<longleftrightarrow> mIsFull b"
    using b by (auto simp add: avail_nat [OF assms(1)])
  show "(mTail b + Buffer_getAvailableInternal b) mod mCapacity b = mHead b"
  proof (cases "mIsFull b")
    case True
    then show ?thesis using b by (simp add: avail_nat [OF assms(1)])
  next
    case nf: False
    show ?thesis
    proof (cases "mTail b \<le> mHead b")
      case True
      then show ?thesis using b nf by (simp add: avail_nat [OF assms(1)])
    next
      case False
      then have "mTail b + (mCapacity b - mTail b + mHead b) = mHead b + mCapacity b"
        using b by simp
      then show ?thesis using b nf False by (simp add: avail_nat [OF assms(1)])
    qed
  qed
qed

lemma mod_shift_inj:
  fixes t :: nat
  assumes "(t + a) mod L = (t + a') mod L" "a < L" "a' < L"
  shows "a = a'"
proof (rule ccontr)
  assume "a \<noteq> a'"
  then consider "a < a'" | "a' < a" by linarith
  then show False
    using assms mod_shift_neq [of a a' L t] mod_shift_neq [of a' a L t] by cases auto
qed

lemma avail_unique:
  assumes "Buffer_wf b" "0 < mCapacity b" "a \<le> mCapacity b"
    and "(mTail b + a) mod mCapacity b = mHead b" "a = mCapacity b \<longleftrightarrow> mIsFull b"
  shows "Buffer_getAvailableInternal b = a"
proof (cases "mIsFull b")
  case True
  then show ?thesis using assms avail_char(3) [OF assms(1,2)] by simp
next
  case False
  then have "a < mCapacity b" "Buffer_getAvailableInternal b < mCapacity b"
    using assms avail_char(1,3) [OF assms(1,2)] by auto
  then show ?thesis
    using mod_shift_inj [of "mTail b" "Buffer_getAvailableInternal b" "mCapacity b" a]
      avail_char(2) [OF assms(1,2)] assms(4) by simp
qed

lemma avail_cap0:
  assumes "Buffer_wf b" "mCapacity b = 0"
  shows "Buffer_getAvailableInternal b = 0"
proof -
  have "mHead b = 0" "mTail b = 0" "\<not> mIsFull b"
    using assms by (simp_all add: Buffer_wf_def)
  then show ?thesis by (simp add: avail_nat [OF assms(1)])
qed

lemma avail_le:
  assumes "Buffer_wf b"
  shows "Buffer_getAvailableInternal b \<le> mCapacity b"
proof (cases "mCapacity b = 0")
  case True
  then show ?thesis using avail_cap0 [OF assms] by simp
next
  case False
  then show ?thesis using avail_char(1) [OF assms] by simp
qed

lemma write_loop_eq:
  assumes "0 < mCapacity b" "mCapacity b < size_range" "length (mBuffer b) = mCapacity b"
    and "mHead b < mCapacity b" "n \<le> length data" "i \<le> n"
  shows "Buffer_write_loop data i n b =
           Inr (b\<lparr>mBuffer := ring_put (mBuffer b) (mHead b) (take (n - i) (drop i data)),
                  mHead := (mHead b + (n - i)) mod mCapacity b\<rparr>)"
  using assms
proof (induction data i n b rule: Buffer_write_loop.induct)
  case (1 data i toWrite b)
  show ?case
  proof (cases "i < toWrite")
    case False
    then show ?thesis using "1.prems" by (subst Buffer_write_loop.simps) simp
  next
    case True
    let ?b1 = "b\<lparr>mBuffer := (mBuffer b)[mHead b := data ! i],
                   mHead := size_add (mHead b) 1 mod mCapacity b\<rparr>"
    have sa: "size_add (mHead b) (Suc 0) = Suc (mHead b)"
      using "1.prems" by (simp add: size_add_eq)
    have guards: "\<not> (length data \<le> i \<or> length (mBuffer b) \<le> mHead b)" "mCapacity b \<noteq> 0"
      using True "1.prems" by simp_all
    have step: "Buffer_write_loop data i toWrite b = Buffer_write_loop data (i + 1) toWrite ?b1"
      using True guards by (subst Buffer_write_loop.simps) simp
    have ih: "Buffer_write_loop data (i + 1) toWrite ?b1 =
        Inr (?b1\<lparr>mBuffer := ring_put (mBuffer ?b1) (mHead ?b1) (take (toWrite - (i + 1)) (drop (i + 1) data)),
                  mHead := (mHead ?b1 + (toWrite - (i + 1))) mod mCapacity ?b1\<rparr>)"
      using True guards "1.prems" by (intro "1.IH") simp_all
    have td: "take (toWrite - i) (drop i data) = data ! i # take (toWrite - Suc i) (drop (Suc i) data)"
      using True "1.prems" by (simp add: take_Suc_conv_app_nth Cons_nth_drop_Suc [symmetric] Suc_diff_Suc [symmetric] del: Suc_diff_Suc)
    have hd: "(Suc (mHead b) mod mCapacity b + (toWrite - Suc i)) mod mCapacity b
              = (mHead b + (toWrite - i)) mod mCapacity b"
    proof -
      have "(Suc (mHead b) mod mCapacity b + (toWrite - Suc i)) mod mCapacity b
            = (Suc (mHead b) + (toWrite - Suc i)) mod mCapacity b"
        by (simp only: mod_add_left_eq)
      also have "Suc (mHead b) + (toWrite - Suc i) = mHead b + (toWrite - i)"
        using True by simp
      finally show ?thesis .
    qed
    show ?thesis
      unfolding step ih using "1.prems"(3) by (simp add: td sa hd)
  qed
qed

lemma Buffer_write_spec:
  assumes wf: "Buffer_wf b" and len: "len \<le> length data"
  defines "k \<equiv> min len (mCapacity b - Buffer_getAvailableInternal b)"
  shows "\<exists>b'. Buffer_write data len b = Inr (k, b') \<and> Buffer_wf b' \<and>
              mCapacity b' = mCapacity b \<and>
              Buffer_getAvailableInternal b' = Buffer_getAvailableInternal b + k \<and>
              Buffer_contents b' = Buffer_contents b @ take k data"
proof -
  let ?a = "Buffer_getAvailableInternal b"
  let ?c = "mCapacity b"
  have le: "?a \<le> ?c" using wf by (rule avail_le)
  have c: "?c < size_range" "length (mBuffer b) = ?c" using wf by (simp_all add: Buffer_wf_def)
  have free: "size_sub ?c ?a = ?c - ?a" using le c by (simp add: size_sub_eq)
  show ?thesis
  proof (cases "k = 0")
    case True
    then show ?thesis using wf free
      by (simp add: Buffer_write_def k_def Let_def)
  next
    case False
    then have pos: "0 < ?c" and k: "0 < k" "k \<le> len" "?a + k \<le> ?c" "?a < ?c"
      by (auto simp add: k_def)
    have nf: "\<not> mIsFull b" using avail_char(3) [OF wf pos] k by simp
    have ht: "mHead b < ?c" "mTail b < ?c" using wf pos by (simp_all add: Buffer_wf_def)
    have h: "(mTail b + ?a) mod ?c = mHead b" using wf pos by (rule avail_char(2))
    define b1 where "b1 = b\<lparr>mBuffer := ring_put (mBuffer b) (mHead b) (take k data),
                              mHead := (mHead b + k) mod ?c\<rparr>"
    define b' where "b' = (if mHead b1 = mTail b1 \<and> k > 0 then b1\<lparr>mIsFull := True\<rparr> else b1)"
    have loop: "Buffer_write_loop data 0 k b = Inr b1"
      unfolding b1_def using pos c ht k len by (subst write_loop_eq) simp_all
    have res: "Buffer_write data len b = Inr (k, b')"
      using False loop free by (simp add: Buffer_write_def k_def [symmetric] Let_def b'_def)
    have fields: "mCapacity b' = ?c" "mTail b' = mTail b" "mHead b' = (mHead b + k) mod ?c"
      "mBuffer b' = ring_put (mBuffer b) (mHead b) (take k data)"
      "mIsFull b' \<longleftrightarrow> (mHead b + k) mod ?c = mTail b"
      using nf k by (simp_all add: b'_def b1_def)
    have wf': "Buffer_wf b'"
      using pos c ht by (auto simp add: Buffer_wf_def fields)
    have head': "(mTail b + (?a + k)) mod ?c = (mHead b + k) mod ?c"
    proof -
      have "(mTail b + (?a + k)) mod ?c = ((mTail b + ?a) mod ?c + k) mod ?c"
        by (simp only: mod_add_left_eq add.assoc)
      then show ?thesis by (simp only: h)
    qed
    have full': "?a + k = ?c \<longleftrightarrow> mIsFull b'"
    proof
      assume "?a + k = ?c"
      then have "(mHead b + k) mod ?c = (mTail b + ?c) mod ?c" using head' by simp
      then show "mIsFull b'" using ht by (simp add: fields)
    next
      assume "mIsFull b'"
      then have "(mTail b + (?a + k)) mod ?c = (mTail b + 0) mod ?c"
        using head' ht by (simp add: fields)
      then have "?a + k < ?c \<Longrightarrow> ?a + k = 0"
        using pos mod_shift_inj [of "mTail b" "?a + k" ?c 0] by simp
      then show "?a + k = ?c" using k by linarith
    qed
    have avail': "Buffer_getAvailableInternal b' = ?a + k"
      using wf' pos k head' full' by (intro avail_unique [where b = b']) (simp_all add: fields)
    have "Buffer_contents b' = take (?a + length (take k data)) (rotate (mTail b) (ring_put (mBuffer b) (mHead b) (take k data)))"
      using k len by (simp add: Buffer_contents_def avail' fields)
    also have "\<dots> = take ?a (rotate (mTail b) (mBuffer b)) @ take k data"
      using k len c h by (intro ring_put_window) simp_all
    finally have "Buffer_contents b' = Buffer_contents b @ take k data"
      by (simp add: Buffer_contents_def)
    then show ?thesis using res wf' avail' fields(1) by blast
  qed
qed

lemma rotate_take_step:
  assumes "t < length buf" "0 < m" "m \<le> length buf"
  shows "take m (rotate t buf) = buf ! t # take (m - 1) (rotate (Suc t mod length buf) buf)"
proof (rule nth_equalityI)
  show "length (take m (rotate t buf)) = length (buf ! t # take (m - 1) (rotate (Suc t mod length buf) buf))"
    using assms by simp
next
  fix j assume "j < length (take m (rotate t buf))"
  then have j: "j < m" by simp
  show "take m (rotate t buf) ! j = (buf ! t # take (m - 1) (rotate (Suc t mod length buf) buf)) ! j"
  proof (cases j)
    case 0
    have "0 < length buf" using assms by linarith
    then have "rotate t buf ! 0 = buf ! ((t + 0) mod length buf)"
      by (rule nth_rotate)
    then show ?thesis using 0 assms by simp
  next
    case (Suc j')
    then have "j' < m - 1" "j' < length buf" "j < length buf" using j assms by simp_all
    moreover have "(Suc t mod length buf + j') mod length buf = (t + Suc j') mod length buf"
      by (simp add: mod_add_left_eq)
    ultimately show ?thesis using Suc j by (simp add: nth_rotate)
  qed
qed

lemma read_loop_eq:
  assumes "0 < mCapacity b" "mCapacity b < size_range" "length (mBuffer b) = mCapacity b"
    and "mTail b < mCapacity b" "n \<le> length dest" "i \<le> n" "n - i \<le> mCapacity b"
  shows "Buffer_read_loop dest i n b =
           Inr (take i dest @ take (n - i) (rotate (mTail b) (mBuffer b)) @ drop n dest,
                b\<lparr>mTail := (mTail b + (n - i)) mod mCapacity b\<rparr>)"
  using assms
proof (induction dest i n b rule: Buffer_read_loop.induct)
  case (1 dest i toRead b)
  show ?case
  proof (cases "i < toRead")
    case False
    then show ?thesis using "1.prems" by (subst Buffer_read_loop.simps) simp
  next
    case True
    let ?x = "mBuffer b ! mTail b"
    let ?b1 = "b\<lparr>mTail := size_add (mTail b) 1 mod mCapacity b\<rparr>"
    have sa: "size_add (mTail b) (Suc 0) = Suc (mTail b)"
      using "1.prems" by (simp add: size_add_eq)
    have guards: "\<not> (length dest \<le> i \<or> length (mBuffer b) \<le> mTail b)" "mCapacity b \<noteq> 0"
      using True "1.prems" by simp_all
    have step: "Buffer_read_loop dest i toRead b = Buffer_read_loop (dest[i := ?x]) (i + 1) toRead ?b1"
      using True guards by (subst Buffer_read_loop.simps) simp
    have ih: "Buffer_read_loop (dest[i := ?x]) (i + 1) toRead ?b1 =
        Inr (take (i + 1) (dest[i := ?x]) @ take (toRead - (i + 1)) (rotate (mTail ?b1) (mBuffer ?b1)) @ drop toRead (dest[i := ?x]),
             ?b1\<lparr>mTail := (mTail ?b1 + (toRead - (i + 1))) mod mCapacity ?b1\<rparr>)"
      using True guards "1.prems" by (intro "1.IH") simp_all
    have d1: "take (Suc i) (dest[i := ?x]) = take i dest @ [?x]"
      using True "1.prems" by (simp add: take_Suc_conv_app_nth)
    have d2: "drop toRead (dest[i := ?x]) = drop toRead dest"
      using True by simp
    have rt: "take (toRead - i) (rotate (mTail b) (mBuffer b))
              = ?x # take (toRead - Suc i) (rotate (Suc (mTail b) mod mCapacity b) (mBuffer b))"
      using rotate_take_step [of "mTail b" "mBuffer b" "toRead - i"] True "1.prems" by simp
    have tl: "(Suc (mTail b) mod mCapacity b + (toRead - Suc i)) mod mCapacity b
              = (mTail b + (toRead - i)) mod mCapacity b"
    proof -
      have "(Suc (mTail b) mod mCapacity b + (toRead - Suc i)) mod mCapacity b
            = (Suc (mTail b) + (toRead - Suc i)) mod mCapacity b"
        by (simp only: mod_add_left_eq)
      also have "Suc (mTail b) + (toRead - Suc i) = mTail b + (toRead - i)"
        using True by simp
      finally show ?thesis .
    qed
    show ?thesis
      unfolding step ih by (simp add: d1 d2 rt sa tl)
  qed
qed

lemma Buffer_read_spec:
  fixes len :: nat
  assumes wf: "Buffer_wf b"
  defines "k \<equiv> min len (Buffer_getAvailableInternal b)"
  assumes dest: "k \<le> length dest"
  shows "\<exists>b'. Buffer_read dest len b = Inr (k, take k (Buffer_contents b) @ drop k dest, b') \<and>
              Buffer_wf b' \<and> mCapacity b' = mCapacity b \<and>
              Buffer_getAvailableInternal b' = Buffer_getAvailableInternal b - k \<and>
              Buffer_contents b' = drop k (Buffer_contents b)"
proof -
  let ?a = "Buffer_getAvailableInternal b"
  let ?c = "mCapacity b"
  have le: "?a \<le> ?c" using wf by (rule avail_le)
  have c: "?c < size_range" "length (mBuffer b) = ?c" using wf by (simp_all add: Buffer_wf_def)
  show ?thesis
  proof (cases "k = 0")
    case True
    then show ?thesis using wf
      by (simp add: Buffer_read_def k_def Let_def)
  next
    case False
    then have pos: "0 < ?c" and k: "0 < k" "k \<le> len" "k \<le> ?a" "k \<le> ?c"
      using le by (auto simp add: k_def)
    have ht: "mHead b < ?c" "mTail b < ?c" using wf pos by (simp_all add: Buffer_wf_def)
    have h: "(mTail b + ?a) mod ?c = mHead b" using wf pos by (rule avail_char(2))
    define b' where "b' = b\<lparr>mTail := (mTail b + k) mod ?c, mIsFull := False\<rparr>"
    have loop: "Buffer_read_loop dest 0 k b =
        Inr (take k (rotate (mTail b) (mBuffer b)) @ drop k dest, b\<lparr>mTail := (mTail b + k) mod ?c\<rparr>)"
      using pos c ht k dest by (subst read_loop_eq) simp_all
    have tk: "take k (Buffer_contents b) = take k (rotate (mTail b) (mBuffer b))"
      using k by (simp add: Buffer_contents_def min_def)
    have res: "Buffer_read dest len b = Inr (k, take k (Buffer_contents b) @ drop k dest, b')"
      using False loop by (simp add: Buffer_read_def k_def [symmetric] Let_def b'_def tk)
    have fields: "mCapacity b' = ?c" "mTail b' = (mTail b + k) mod ?c" "mHead b' = mHead b"
      "mBuffer b' = mBuffer b" "\<not> mIsFull b'"
      by (simp_all add: b'_def)
    have wf': "Buffer_wf b'"
      using pos c ht by (auto simp add: Buffer_wf_def fields)
    have head': "((mTail b + k) mod ?c + (?a - k)) mod ?c = mHead b"
    proof -
      have "((mTail b + k) mod ?c + (?a - k)) mod ?c = ((mTail b + k) + (?a - k)) mod ?c"
        by (simp only: mod_add_left_eq)
      also have "(mTail b + k) + (?a - k) = mTail b + ?a" using k by simp
      finally show ?thesis by (simp only: h)
    qed
    have avail': "Buffer_getAvailableInternal b' = ?a - k"
      using wf' pos k le head' by (intro avail_unique [where b = b']) (auto simp add: fields)
    have "Buffer_contents b' = drop k (Buffer_contents b)"
    proof (rule nth_equalityI)
      show "length (Buffer_contents b') = length (drop k (Buffer_contents b))"
        using le c by (simp add: Buffer_contents_def avail' fields)
    next
      fix j assume "j < length (Buffer_contents b')"
      then have j: "j < ?a - k" by (simp add: Buffer_contents_def avail' fields)
      then have "k + j < ?a" "k + j < ?c" "j < ?c" using le by simp_all
      moreover have "((mTail b + k) mod ?c + j) mod ?c = (mTail b + (k + j)) mod ?c"
        by (simp add: mod_add_left_eq add.assoc)
      ultimately show "Buffer_contents b' ! j = drop k (Buffer_contents b) ! j"
        using j c by (simp add: Buffer_contents_def avail' fields nth_rotate)
    qed
    then show ?thesis using res wf' avail' fields(1) by blast
  qed
qed

lemma length_Buffer_contents:
  assumes "Buffer_wf b"
  shows "length (Buffer_contents b) = Buffer_getAvailableInternal b"
  using avail_le [OF assms] assms by (simp add: Buffer_contents_def Buffer_wf_def)

lemma Buffer_wf_new:
  assumes "capacityBytes < size_range"
  shows "Buffer_wf (new_Buffer capacityBytes)"
  using assms by (simp add: Buffer_wf_def new_Buffer_def)

lemma avail_new:
  assumes "capacityBytes < size_range"
  shows "Buffer_getAvailableInternal (new_Buffer capacityBytes) = 0"
  by (simp add: avail_nat [OF Buffer_wf_new [OF assms]]) (simp add: new_Buffer_def)

lemma Buffer_wf_clear:
  assumes "Buffer_wf b"
  shows "Buffer_wf (Buffer_clear b)"
  using assms by (auto simp add: Buffer_wf_def Buffer_clear_def)

lemma avail_clear:
  assumes "Buffer_wf b"
  shows "Buffer_getAvailableInternal (Buffer_clear b) = 0"
  by (simp add: avail_nat [OF Buffer_wf_clear [OF assms]]) (simp add: Buffer_clear_def)

lemma ring_put_nowrap:
  assumes "h + length xs \<le> length buf"
  shows "ring_put buf h xs = take h buf @ xs @ drop (h + length xs) buf"
  using assms
proof (induction xs arbitrary: buf h)
  case Nil
  then show ?case by simp
next
  case (Cons x xs)
  have h: "h < length buf" using Cons.prems by simp
  show ?case
  proof (cases "xs = []")
    case True
    then show ?thesis using h by (simp add: upd_conv_take_nth_drop)
  next
    case False
    then have "Suc h < length buf" using Cons.prems by (cases xs) simp_all
    then have m: "Suc h mod length buf = Suc h" by simp
    have "ring_put (buf[h := x]) (Suc h) xs
          = take (Suc h) (buf[h := x]) @ xs @ drop (Suc h + length xs) (buf[h := x])"
      using Cons.prems by (intro Cons.IH) simp
    then show ?thesis using h by (simp add: m take_Suc_conv_app_nth)
  qed
qed

lemma ring_put_append:
  assumes "h < length buf"
  shows "ring_put buf h (xs @ ys)
         = ring_put (ring_put buf h xs) ((h + length xs) mod length buf) ys"
  using assms
proof (induction xs arbitrary: buf h)
  case Nil
  then show ?case by simp
next
  case (Cons x xs)
  have "(Suc h mod length buf + length xs) mod length buf = (h + Suc (length xs)) mod length buf"
    by (simp add: mod_add_left_eq)
  moreover have "0 < length buf" using Cons.prems by linarith
  then have "Suc h mod length (buf[h := x]) < length (buf[h := x])"
    by simp
  ultimately show ?case using Cons.IH [of "Suc h mod length buf" "buf[h := x]"] by simp
qed

lemma rotate_take_drop:
  assumes "k \<le> a" "a \<le> length buf"
  shows "take (a - k) (rotate ((r + k) mod length buf) buf) = drop k (take a (rotate r buf))"
proof (rule nth_equalityI)
  show "length (take (a - k) (rotate ((r + k) mod length buf) buf)) = length (drop k (take a (rotate r buf)))"
    using assms by simp
next
  fix j assume "j < length (take (a - k) (rotate ((r + k) mod length buf) buf))"
  then have j: "j < a - k" by simp
  then have "k + j < a" "k + j < length buf" "j < length buf" using assms by simp_all
  moreover have "((r + k) mod length buf + j) mod length buf = (r + (k + j)) mod length buf"
    by (simp add: mod_add_left_eq add.assoc)
  ultimately show "take (a - k) (rotate ((r + k) mod length buf) buf) ! j = drop k (take a (rotate r buf)) ! j"
    using j by (simp add: nth_rotate)
qed

lemma two_phase_put:
  assumes "w < length buf" "k \<le> length buf" "k \<le> length data" "0 < k"
  defines "c1 \<equiv> min k (length buf - w)"
  shows "memcpy buf w data 0 c1 = Inr (ring_put buf w (take c1 data))"
    and "c1 < k \<Longrightarrow>
         memcpy (ring_put buf w (take c1 data)) 0 data c1 (k - c1) = Inr (ring_put buf w (take k data))"
proof -
  have c1: "c1 \<le> k" "w + c1 \<le> length buf" "length (take c1 data) = c1"
    using assms by (simp_all add: c1_def)
  show 1: "memcpy buf w data 0 c1 = Inr (ring_put buf w (take c1 data))"
    using c1 assms(3) by (simp add: memcpy_def ring_put_nowrap)
  assume lt: "c1 < k"
  then have wrap: "w + c1 = length buf" using assms by (simp add: c1_def min_def split: if_splits)
  let ?buf1 = "ring_put buf w (take c1 data)"
  let ?xs2 = "take (k - c1) (drop c1 data)"
  have l2: "length ?xs2 = k - c1" using assms(3) lt by simp
  have "memcpy ?buf1 0 data c1 (k - c1) = Inr (?xs2 @ drop (k - c1) ?buf1)"
    using assms(2,3) lt by (simp add: memcpy_def)
  also have "?xs2 @ drop (k - c1) ?buf1 = ring_put ?buf1 0 ?xs2"
    using assms(2) l2 by (simp add: ring_put_nowrap)
  also have "\<dots> = ring_put ?buf1 ((w + length (take c1 data)) mod length buf) ?xs2"
    using wrap c1(3) by simp
  also have "\<dots> = ring_put buf w (take c1 data @ ?xs2)"
    using assms(1) by (simp only: ring_put_append)
  also have "take c1 data @ ?xs2 = take k data"
    using lt take_add [of c1 "k - c1" data] by simp
  finally show "memcpy ?buf1 0 data c1 (k - c1) = Inr (ring_put buf w (take k data))" .
qed

lemma two_phase_get:
  assumes "r < length buf" "k \<le> length buf" "k \<le> length dest" "0 < k"
  defines "c1 \<equiv> min k (length buf - r)"
  shows "memcpy dest 0 buf r c1 = Inr (take c1 (drop r buf) @ drop c1 dest)"
    and "c1 < k \<Longrightarrow>
         memcpy (take c1 (drop r buf) @ drop c1 dest) c1 buf 0 (k - c1)
           = Inr (take k (rotate r buf) @ drop k dest)"
    and "\<not> c1 < k \<Longrightarrow> take c1 (drop r buf) @ drop c1 dest = take k (rotate r buf) @ drop k dest"
proof -
  have c1: "c1 \<le> k" "r + c1 \<le> length buf" "length (take c1 (drop r buf)) = c1"
    using assms by (simp_all add: c1_def)
  have rot: "rotate r buf = drop r buf @ take r buf"
    using assms(1) rotate_drop_take [of r buf] by simp
  show "memcpy dest 0 buf r c1 = Inr (take c1 (drop r buf) @ drop c1 dest)"
    using c1 assms(3) by (simp add: memcpy_def)
  show "take c1 (drop r buf) @ drop c1 dest = take k (rotate r buf) @ drop k dest" if "\<not> c1 < k"
  proof -
    from that have "c1 = k" "k \<le> length buf - r" using assms by (simp_all add: c1_def)
    then show ?thesis by (simp add: rot)
  qed
  assume lt: "c1 < k"
  then have wrap: "c1 = length buf - r" using assms by (simp add: c1_def min_def split: if_splits)
  let ?dest1 = "take c1 (drop r buf) @ drop c1 dest"
  have t1: "take c1 ?dest1 = drop r buf" using wrap by simp
  have d1: "drop (c1 + (k - c1)) ?dest1 = drop k dest"
    using lt c1(3) by simp
  have m: "memcpy ?dest1 c1 buf 0 (k - c1) = Inr (take c1 ?dest1 @ take (k - c1) buf @ drop (c1 + (k - c1)) ?dest1)"
    using assms(2,3) lt c1 by (simp add: memcpy_def)
  have "drop r buf @ take (k - c1) buf = take k (rotate r buf)"
  proof -
    have "k - c1 \<le> r" using wrap assms(1,2) by linarith
    then have "take (k - c1) (take r buf) = take (k - c1) buf" by (simp add: min_absorb1)
    moreover have "k - length (drop r buf) = k - c1" "take k (drop r buf) = drop r buf"
      using wrap lt by simp_all
    ultimately show ?thesis by (simp only: rot take_append)
  qed
  then have "drop r buf @ take (k - c1) buf @ drop k dest = take k (rotate r buf) @ drop k dest"
    by (simp only: append_assoc [symmetric])
  then show "memcpy ?dest1 c1 buf 0 (k - c1) = Inr (take k (rotate r buf) @ drop k dest)"
    by (simp only: m t1 d1)
qed

lemma CountBuffer_write_spec:
  assumes wf: "CountBuffer_wf b" and len: "len \<le> length data"
  defines "k \<equiv> min len (m_capacity b - m_dataAvailable b)"
  shows "\<exists>b'. CountBuffer_write data len b = Inr (k, b') \<and> CountBuffer_wf b' \<and>
              m_capacity b' = m_capacity b \<and>
              m_dataAvailable b' = m_dataAvailable b + k \<and>
              CountBuffer_contents b' = CountBuffer_contents b @ take k data"
proof -
  let ?a = "m_dataAvailable b"
  let ?c = "m_capacity b"
  let ?w = "m_writePos b"
  have le: "?a \<le> ?c" and c: "?c \<le> vector_max_size" "length (m_buffer b) = ?c"
    using wf by (simp_all add: CountBuffer_wf_def)
  have c2: "?c + ?c < size_range" using c(1) by (simp add: vector_max_size_def size_range_def)
  have free: "size_sub ?c ?a = ?c - ?a" using le c2 by (simp add: size_sub_eq)
  show ?thesis
  proof (cases "k = 0")
    case True
    then show ?thesis using wf free
      by (simp add: CountBuffer_write_def k_def Let_def)
  next
    case False
    then have pos: "0 < ?c" and k: "0 < k" "k \<le> len" "?a + k \<le> ?c" "k \<le> ?c"
      by (auto simp add: k_def)
    have r: "m_readPos b < ?c" and w: "?w = (m_readPos b + ?a) mod ?c"
      using wf pos by (simp_all add: CountBuffer_wf_def)
    have wlt: "?w < ?c" using w pos by simp
    define c1 where "c1 = min k (length (m_buffer b) - ?w)"
    have sae: "size_sub ?c ?w = ?c - ?w" using wlt c2 by (simp add: size_sub_eq)
    have chunk1: "min k (size_sub ?c ?w) = c1" by (simp add: c1_def sae c(2))
    have c1k: "c1 \<le> k" by (simp add: c1_def)
    have chunk2: "size_sub k c1 = k - c1" using c1k k c2 by (simp add: size_sub_eq)
    have m1: "memcpy (m_buffer b) ?w data 0 c1 = Inr (ring_put (m_buffer b) ?w (take c1 data))"
      unfolding c1_def using wlt k len c(2) by (intro two_phase_put(1)) simp_all
    have m2: "c1 < k \<Longrightarrow> memcpy (ring_put (m_buffer b) ?w (take c1 data)) 0 data c1 (k - c1)
                = Inr (ring_put (m_buffer b) ?w (take k data))"
      unfolding c1_def using wlt k len c(2) by (intro two_phase_put(2)) simp_all
    have ne: "ring_put (m_buffer b) ?w (take c1 data) \<noteq> []"
      using pos c(2) by (metis length_ring_put length_0_conv less_not_refl)
    have c1eq: "\<not> c1 < k \<Longrightarrow> c1 = k" using c1k by simp
    define b' where "b' = b\<lparr>m_buffer := ring_put (m_buffer b) ?w (take k data),
                              m_writePos := (?w + k) mod ?c, m_dataAvailable := ?a + k\<rparr>"
    have sa1: "size_add ?w k = ?w + k" using wlt k c2 by (simp add: size_add_eq)
    have sa2: "size_add ?a k = ?a + k" using le k c2 by (simp add: size_add_eq)
    have res: "CountBuffer_write data len b = Inr (k, b')"
    proof (cases "c1 < k")
      case True
      then show ?thesis
        using False wlt pos m1 m2 ne
        by (simp add: CountBuffer_write_def free k_def [symmetric] Let_def chunk1 chunk2 c(2)
            sa1 sa2 b'_def)
    next
      case nlt: False
      then show ?thesis
        using False wlt pos m1 c1eq
        by (simp add: CountBuffer_write_def free k_def [symmetric] Let_def chunk1 c(2)
            sa1 sa2 b'_def)
    qed
    have fields: "m_capacity b' = ?c" "m_readPos b' = m_readPos b" "m_writePos b' = (?w + k) mod ?c"
      "m_buffer b' = ring_put (m_buffer b) ?w (take k data)" "m_dataAvailable b' = ?a + k"
      by (simp_all add: b'_def)
    have head': "(?w + k) mod ?c = (m_readPos b + (?a + k)) mod ?c"
    proof -
      have "(m_readPos b + (?a + k)) mod ?c = ((m_readPos b + ?a) mod ?c + k) mod ?c"
        by (simp only: mod_add_left_eq add.assoc)
      then show ?thesis by (simp only: w)
    qed
    have wf': "CountBuffer_wf b'"
      using pos c r k head' by (simp add: CountBuffer_wf_def fields)
    have "CountBuffer_contents b' = take (?a + length (take k data)) (rotate (m_readPos b) (ring_put (m_buffer b) ?w (take k data)))"
      using k len by (simp add: CountBuffer_contents_def fields)
    also have "\<dots> = take ?a (rotate (m_readPos b) (m_buffer b)) @ take k data"
      using k len c w by (intro ring_put_window) simp_all
    finally have "CountBuffer_contents b' = CountBuffer_contents b @ take k data"
      by (simp add: CountBuffer_contents_def)
    then show ?thesis using res wf' fields(1,5) by blast
  qed
qed

lemma CountBuffer_read_spec:
  fixes len :: nat
  assumes wf: "CountBuffer_wf b"
  defines "k \<equiv> min len (m_dataAvailable b)"
  assumes dest: "k \<le> length dest"
  shows "\<exists>b'. CountBuffer_read dest len b
                = Inr (k, take k (CountBuffer_contents b) @ drop k dest, b') \<and>
              CountBuffer_wf b' \<and> m_capacity b' = m_capacity b \<and>
              m_dataAvailable b' = m_dataAvailable b - k \<and>
              CountBuffer_contents b' = drop k (CountBuffer_contents b)"
proof -
  let ?a = "m_dataAvailable b"
  let ?c = "m_capacity b"
  let ?r = "m_readPos b"
  have le: "?a \<le> ?c" and c: "?c \<le> vector_max_size" "length (m_buffer b) = ?c"
    using wf by (simp_all add: CountBuffer_wf_def)
  have c2: "?c + ?c < size_range" using c(1) by (simp add: vector_max_size_def size_range_def)
  show ?thesis
  proof (cases "k = 0")
    case True
    then show ?thesis using wf
      by (simp add: CountBuffer_read_def k_def Let_def)
  next
    case False
    then have pos: "0 < ?c" and k: "0 < k" "k \<le> len" "k \<le> ?a" "k \<le> ?c"
      using le by (auto simp add: k_def)
    have r: "?r < ?c" and w: "m_writePos b = (?r + ?a) mod ?c"
      using wf pos by (simp_all add: CountBuffer_wf_def)
    define c1 where "c1 = min k (length (m_buffer b) - ?r)"
    have sae: "size_sub ?c ?r = ?c - ?r" using r c2 by (simp add: size_sub_eq)
    have chunk1: "min k (size_sub ?c ?r) = c1" by (simp add: c1_def sae c(2))
    have c1k: "c1 \<le> k" by (simp add: c1_def)
    have chunk2: "size_sub k c1 = k - c1" using c1k k c2 by (simp add: size_sub_eq)
    have m1: "memcpy dest 0 (m_buffer b) ?r c1 = Inr (take c1 (drop ?r (m_buffer b)) @ drop c1 dest)"
      unfolding c1_def using r k dest c(2) by (intro two_phase_get(1)) simp_all
    have m2: "c1 < k \<Longrightarrow> memcpy (take c1 (drop ?r (m_buffer b)) @ drop c1 dest) c1 (m_buffer b) 0 (k - c1)
                = Inr (take k (rotate ?r (m_buffer b)) @ drop k dest)"
      unfolding c1_def using r k dest c(2) by (intro two_phase_get(2)) simp_all
    have m3: "\<not> c1 < k \<Longrightarrow> take c1 (drop ?r (m_buffer b)) @ drop c1 dest
                = take k (rotate ?r (m_buffer b)) @ drop k dest"
      unfolding c1_def using r k dest c(2) by (intro two_phase_get(3)) simp_all
    have ne: "m_buffer b \<noteq> []" using pos c(2) by auto
    define b' where "b' = b\<lparr>m_readPos := (?r + k) mod ?c, m_dataAvailable := ?a - k\<rparr>"
    have sa1: "size_add ?r k = ?r + k" using r k c2 by (simp add: size_add_eq)
    have sa2: "size_sub ?a k = ?a - k" using le k c2 by (simp add: size_sub_eq)
    have tk: "take k (CountBuffer_contents b) = take k (rotate ?r (m_buffer b))"
      using k by (simp add: CountBuffer_contents_def min_def)
    have res: "CountBuffer_read dest len b = Inr (k, take k (CountBuffer_contents b) @ drop k dest, b')"
    proof (cases "c1 < k")
      case True
      then show ?thesis
        using False r pos m1 m2 ne
        by (simp add: CountBuffer_read_def k_def [symmetric] Let_def chunk1 chunk2 c(2)
            sa1 sa2 b'_def tk)
    next
      case nlt: False
      then show ?thesis
        using False r pos m1 m3
        by (simp add: CountBuffer_read_def k_def [symmetric] Let_def chunk1 c(2)
            sa1 sa2 b'_def tk)
    qed
    have fields: "m_capacity b' = ?c" "m_readPos b' = (?r + k) mod ?c" "m_writePos b' = m_writePos b"
      "m_buffer b' = m_buffer b" "m_dataAvailable b' = ?a - k"
      by (simp_all add: b'_def)
    have head': "((?r + k) mod ?c + (?a - k)) mod ?c = m_writePos b"
    proof -
      have "((?r + k) mod ?c + (?a - k)) mod ?c = ((?r + k) + (?a - k)) mod ?c"
        by (simp only: mod_add_left_eq)
      also have "(?r + k) + (?a - k) = ?r + ?a" using k by simp
      finally show ?thesis by (simp only: w)
    qed
    have wf': "CountBuffer_wf b'"
      using pos c le head' by (simp add: CountBuffer_wf_def fields)
    have "CountBuffer_contents b' = drop k (CountBuffer_contents b)"
      using k le c(2) rotate_take_drop [of k ?a "m_buffer b" ?r]
      by (simp add: CountBuffer_contents_def fields)
    then show ?thesis using res wf' fields(1,5) by blast
  qed
qed

lemma CountBuffer_wf_new:
  assumes "sz \<le> vector_max_size"
  shows "CountBuffer_wf (new_CountBuffer sz)"
  using assms by (simp add: CountBuffer_wf_def new_CountBuffer_def)

lemma CountBuffer_wf_clear:
  assumes "CountBuffer_wf b"
  shows "CountBuffer_wf (CountBuffer_clear b)"
  using assms by (auto simp add: CountBuffer_wf_def CountBuffer_clear_def)

lemma length_CountBuffer_contents:
  assumes "CountBuffer_wf b"
  shows "length (CountBuffer_contents b) = m_dataAvailable b"
  using assms by (simp add: CountBuffer_contents_def CountBuffer_wf_def)

lemma Buffer_contents_clear:
  assumes "Buffer_wf b"
  shows "Buffer_contents (Buffer_clear b) = []"
  using avail_clear [OF assms] by (simp add: Buffer_contents_def)

lemma Buffer_contents_new:
  assumes "capacityBytes < size_range"
  shows "Buffer_contents (new_Buffer capacityBytes) = []"
  using avail_new [OF assms] by (simp add: Buffer_contents_def)

lemma Buffer_step_refines:
  assumes wf: "Buffer_wf b" and ok: "buffer_op_ok x"
  shows "\<exists>b'. Buffer_step x b = Inr (fst (spec_step (mCapacity b) x (Buffer_contents b)), b') \<and>
              Buffer_wf b' \<and> mCapacity b' = mCapacity b \<and>
              Buffer_contents b' = snd (spec_step (mCapacity b) x (Buffer_contents b))"
proof (cases x)
  case (Write data len)
  then have "len \<le> length data" using ok by simp
  from Buffer_write_spec [OF wf this] show ?thesis
    using Write by (auto simp add: length_Buffer_contents [OF wf] Let_def)
next
  case (Read dest len)
  then have "min len (Buffer_getAvailableInternal b) \<le> length dest" using ok by simp
  from Buffer_read_spec [OF wf this] show ?thesis
    using Read by (auto simp add: length_Buffer_contents [OF wf] Let_def)
next
  case Clear
  then show ?thesis
    using Buffer_wf_clear [OF wf] Buffer_contents_clear [OF wf]
    by (simp add: Buffer_clear_def)
next
  case Available
  then show ?thesis
    using wf by (simp add: Buffer_available_def length_Buffer_contents [OF wf])
qed

lemma Buffer_run_refines:
  assumes "Buffer_wf b" and "\<forall>x \<in> set ops. buffer_op_ok x"
  shows "\<exists>b'. Buffer_run ops b = Inr (fst (spec_run (mCapacity b) ops (Buffer_contents b)), b') \<and>
              Buffer_wf b' \<and> mCapacity b' = mCapacity b \<and>
              Buffer_contents b' = snd (spec_run (mCapacity b) ops (Buffer_contents b))"
  using assms
proof (induction ops arbitrary: b)
  case Nil
  then show ?case by simp
next
  case (Cons x ops)
  obtain b1 where s: "Buffer_step x b = Inr (fst (spec_step (mCapacity b) x (Buffer_contents b)), b1)"
    and wf1: "Buffer_wf b1" and c1: "mCapacity b1 = mCapacity b"
    and x1: "Buffer_contents b1 = snd (spec_step (mCapacity b) x (Buffer_contents b))"
    using Buffer_step_refines [of b x] Cons.prems by auto
  obtain b2 where r: "Buffer_run ops b1 = Inr (fst (spec_run (mCapacity b1) ops (Buffer_contents b1)), b2)"
    and wf2: "Buffer_wf b2" and c2: "mCapacity b2 = mCapacity b1"
    and x2: "Buffer_contents b2 = snd (spec_run (mCapacity b1) ops (Buffer_contents b1))"
    using Cons.IH [OF wf1] Cons.prems(2) by auto
  show ?case
    using s r wf2 c2 x2 by (simp add: c1 x1 split_beta)
qed

lemma CountBuffer_contents_clear: "CountBuffer_contents (CountBuffer_clear b) = []"
  by (simp add: CountBuffer_contents_def CountBuffer_clear_def)

lemma CountBuffer_contents_new: "CountBuffer_contents (new_CountBuffer sz) = []"
  by (simp add: CountBuffer_contents_def new_CountBuffer_def)

lemma CountBuffer_step_refines:
  assumes wf: "CountBuffer_wf b" and ok: "buffer_op_ok x"
  shows "\<exists>b'. CountBuffer_step x b
                = Inr (fst (spec_step (m_capacity b) x (CountBuffer_contents b)), b') \<and>
              CountBuffer_wf b' \<and> m_capacity b' = m_capacity b \<and>
              CountBuffer_contents b' = snd (spec_step (m_capacity b) x (CountBuffer_contents b))"
proof (cases x)
  case (Write data len)
  then have "len \<le> length data" using ok by simp
  from CountBuffer_write_spec [OF wf this] show ?thesis
    using Write by (auto simp add: length_CountBuffer_contents [OF wf] Let_def)
next
  case (Read dest len)
  then have "min len (m_dataAvailable b) \<le> length dest" using ok by simp
  from CountBuffer_read_spec [OF wf this] show ?thesis
    using Read by (auto simp add: length_CountBuffer_contents [OF wf] Let_def)
next
  case Clear
  then show ?thesis
    using CountBuffer_wf_clear [OF wf] CountBuffer_contents_clear [of b]
    by (simp add: CountBuffer_clear_def)
next
  case Available
  then show ?thesis
    using wf by (simp add: CountBuffer_getAvailable_def length_CountBuffer_contents [OF wf])
qed

lemma CountBuffer_run_refines:
  assumes "CountBuffer_wf b" and "\<forall>x \<in> set ops. buffer_op_ok x"
  shows "\<exists>b'. CountBuffer_run ops b
                = Inr (fst (spec_run (m_capacity b) ops (CountBuffer_contents b)), b') \<and>
              CountBuffer_wf b' \<and> m_capacity b' = m_capacity b \<and>
              CountBuffer_contents b' = snd (spec_run (m_capacity b) ops (CountBuffer_contents b))"
  using assms
proof (induction ops arbitrary: b)
  case Nil
  then show ?case by simp
next
  case (Cons x ops)
  obtain b1 where s: "CountBuffer_step x b
        = Inr (fst (spec_step (m_capacity b) x (CountBuffer_contents b)), b1)"
    and wf1: "CountBuffer_wf b1" and c1: "m_capacity b1 = m_capacity b"
    and x1: "CountBuffer_contents b1 = snd (spec_step (m_capacity b) x (CountBuffer_contents b))"
    using CountBuffer_step_refines [of b x] Cons.prems by auto
  obtain b2 where r: "CountBuffer_run ops b1
        = Inr (fst (spec_run (m_capacity b1) ops (CountBuffer_contents b1)), b2)"
    and wf2: "CountBuffer_wf b2" and c2: "m_capacity b2 = m_capacity b1"
    and x2: "CountBuffer_contents b2 = snd (spec_run (m_capacity b1) ops (CountBuffer_contents b1))"
    using Cons.IH [OF wf1] Cons.prems(2) by auto
  show ?case
    using s r wf2 c2 x2 by (simp add: c1 x1 split_beta)
qed

text \<open>
  Every buffer that was constructed and then used through well-formed calls satisfies the
  representation invariant, so assuming it of a buffer leaves no buffer of the program
  out.
\<close>

lemma Buffer_wf_reachable:
  assumes "capacityBytes < size_range" and "\<forall>x \<in> set ops. buffer_op_ok x"
    and "Buffer_run ops (new_Buffer capacityBytes) = Inr (evs, b)"
  shows "Buffer_wf b"
  using Buffer_run_refines [OF Buffer_wf_new [OF assms(1)] assms(2)] assms(3) by auto

lemma CountBuffer_wf_reachable:
  assumes "sz \<le> vector_max_size" and "\<forall>x \<in> set ops. buffer_op_ok x"
    and "CountBuffer_run ops (new_CountBuffer sz) = Inr (evs, b)"
  shows "CountBuffer_wf b"
  using CountBuffer_run_refines [OF CountBuffer_wf_new [OF assms(1)] assms(2)] assms(3) by auto

lemma cursors_meet:
  assumes "Buffer_wf b"
    and "Buffer_getAvailableInternal b = 0 \<or> Buffer_getAvailableInternal b = mCapacity b"
  shows "mHead b = mTail b"
proof (cases "mCapacity b = 0")
  case True
  then show ?thesis using assms(1) by (simp add: Buffer_wf_def)
next
  case False
  then have pos: "0 < mCapacity b" by simp
  have "mTail b < mCapacity b" using assms(1) pos by (simp add: Buffer_wf_def)
  then show ?thesis using avail_char(2) [OF assms(1) pos] assms(2) by auto
qed

lemma vector_max_size_lt: "sz \<le> vector_max_size \<Longrightarrow> sz < size_range"
  by (simp add: vector_max_size_def size_range_def)

lemma empty_iff_avail0:
  assumes "Buffer_wf b"
  shows "Buffer_isEmptyInternal b \<longleftrightarrow> Buffer_getAvailableInternal b = 0"
proof (cases "mCapacity b = 0")
  case True
  then show ?thesis
    using assms avail_cap0 [OF assms] by (simp add: Buffer_isEmptyInternal_def Buffer_wf_def)
next
  case False
  then have pos: "0 < mCapacity b" by simp
  have t: "mTail b < mCapacity b" using assms pos by (simp add: Buffer_wf_def)
  show ?thesis
  proof
    assume "Buffer_isEmptyInternal b"
    then show "Buffer_getAvailableInternal b = 0"
      by (simp add: Buffer_isEmptyInternal_def avail_nat [OF assms])
  next
    assume a: "Buffer_getAvailableInternal b = 0"
    then have "\<not> mIsFull b" using avail_char(3) [OF assms pos] pos by simp
    moreover have "mHead b = mTail b" using avail_char(2) [OF assms pos] a t by simp
    ultimately show "Buffer_isEmptyInternal b" by (simp add: Buffer_isEmptyInternal_def)
  qed
qed

lemma spec_step_ledger:
  assumes "buffer_op_ok x" "length xs \<le> C"
  shows "length (snd (spec_step C x xs)) \<le> C \<and>
         int (length (snd (spec_step C x xs)))
           = ledger_step (int (length xs)) (fst (spec_step C x xs))"
proof (cases x)
  case (Write data len)
  then have "len \<le> length data" using assms(1) by simp
  then have "length (take (min len (C - length xs)) data) = min len (C - length xs)" by simp
  then show ?thesis using Write assms(2) by (simp add: Let_def)
next
  case (Read dest len)
  then show ?thesis using assms(2) by (simp add: Let_def)
next
  case Clear
  then show ?thesis by simp
next
  case Available
  then show ?thesis using assms(2) by simp
qed

lemma spec_run_ledger:
  assumes "\<forall>x \<in> set ops. buffer_op_ok x" "length xs \<le> C"
  shows "length (snd (spec_run C ops xs)) \<le> C \<and>
         int (length (snd (spec_run C ops xs)))
           = foldl ledger_step (int (length xs)) (fst (spec_run C ops xs))"
  using assms
proof (induction ops arbitrary: xs)
  case Nil
  then show ?case by simp
next
  case (Cons x ops)
  have ok: "buffer_op_ok x" and oks: "\<forall>y \<in> set ops. buffer_op_ok y" using Cons.prems(1) by simp_all
  note s = spec_step_ledger [OF ok Cons.prems(2)]
  have "length (snd (spec_run C ops (snd (spec_step C x xs)))) \<le> C \<and>
         int (length (snd (spec_run C ops (snd (spec_step C x xs)))))
           = foldl ledger_step (int (length (snd (spec_step C x xs)))) (fst (spec_run C ops (snd (spec_step C x xs))))"
    using oks s by (intro Cons.IH) simp_all
  then show ?case
    using s by (simp add: split_beta)
qed

lemma queue_run_fifo:
  assumes "never_waits ops (length (mQueue q))"
  shows "\<exists>evs v' q'. queue_run ops v q = Some (evs, v', q') \<and>
                     popped evs @ mQueue q' = mQueue q @ pushed ops"
  using assms
proof (induction ops arbitrary: v q)
  case Nil
  then show ?case by simp
next
  case (Cons x ops)
  show ?case
  proof (cases x)
    case (Push y)
    let ?q1 = "ThreadSafeQueue_push y q"
    have "never_waits ops (length (mQueue ?q1))"
      using Cons.prems Push by (simp add: ThreadSafeQueue_push_def)
    from Cons.IH [OF this, of v] obtain evs v' q' where
      "queue_run ops v ?q1 = Some (evs, v', q')" "popped evs @ mQueue q' = mQueue ?q1 @ pushed ops"
      by blast
    then show ?thesis using Push by (simp add: ThreadSafeQueue_push_def)
  next
    case TryPop
    show ?thesis
    proof (cases "mQueue q")
      case Nil
      have "never_waits ops (length (mQueue q))" using Cons.prems TryPop Nil by simp
      from Cons.IH [OF this, of v] obtain evs v' q' where
        "queue_run ops v q = Some (evs, v', q')" "popped evs @ mQueue q' = mQueue q @ pushed ops"
        by blast
      then show ?thesis using TryPop Nil by (simp add: ThreadSafeQueue_tryPop_def)
    next
      case (Cons y ys)
      let ?q1 = "q\<lparr>mQueue := ys\<rparr>"
      have "never_waits ops (length (mQueue ?q1))" using Cons.prems TryPop Cons by simp
      from Cons.IH [OF this, of y] obtain evs v' q' where
        "queue_run ops y ?q1 = Some (evs, v', q')" "popped evs @ mQueue q' = mQueue ?q1 @ pushed ops"
        by blast
      then show ?thesis using TryPop Cons by (simp add: ThreadSafeQueue_tryPop_def)
    qed
  next
    case WaitAndPop
    then obtain y ys where q: "mQueue q = y # ys"
      using Cons.prems by (cases "mQueue q") simp_all
    let ?q1 = "q\<lparr>mQueue := ys\<rparr>"
    have "never_waits ops (length (mQueue ?q1))" using Cons.prems WaitAndPop q by simp
    from Cons.IH [OF this, of y] obtain evs v' q' where
      "queue_run ops y ?q1 = Some (evs, v', q')" "popped evs @ mQueue q' = mQueue ?q1 @ pushed ops"
      by blast
    then show ?thesis using WaitAndPop q by (simp add: ThreadSafeQueue_waitAndPop_def)
  qed
qed

lemma pushed_shuffles:
  assumes "zs \<in> shuffles xs ys"
  shows "pushed zs \<in> shuffles (pushed xs) (pushed ys)"
  using assms
proof (induction zs arbitrary: xs ys)
  case Nil
  then show ?case by simp
next
  case (Cons z zs)
  from Cons.prems consider
      (left) "xs \<noteq> []" "hd xs = z" "zs \<in> shuffles (tl xs) ys"
    | (right) "ys \<noteq> []" "hd ys = z" "zs \<in> shuffles xs (tl ys)"
    by (auto simp add: Cons_in_shuffles_iff)
  then show ?case
  proof cases
    case left
    then obtain xs' where xs: "xs = z # xs'" by (cases xs) auto
    have ih: "pushed zs \<in> shuffles (pushed xs') (pushed ys)"
      using Cons.IH [of xs' ys] left xs by simp
    show ?thesis
      using ih xs by (cases z) (simp_all add: Cons_in_shuffles_leftI)
  next
    case right
    then obtain ys' where ys: "ys = z # ys'" by (cases ys) auto
    have ih: "pushed zs \<in> shuffles (pushed xs) (pushed ys')"
      using Cons.IH [of xs ys'] right ys by simp
    show ?thesis
      using ih ys by (cases z) (simp_all add: Cons_in_shuffles_rightI)
  qed
qed

lemma pushed_interleavings:
  assumes "sched \<in> interleavings threads"
  shows "pushed sched \<in> interleavings (map pushed threads)"
  using assms
proof (induction threads arbitrary: sched)
  case Nil
  then show ?case by simp
next
  case (Cons t ts)
  then obtain zs where "zs \<in> interleavings ts" "sched \<in> shuffles t zs" by auto
  then have "pushed zs \<in> interleavings (map pushed ts)"
    "pushed sched \<in> shuffles (pushed t) (pushed zs)"
    using Cons.IH pushed_shuffles by blast+
  then show ?case by auto
qed

lemma mset_interleavings:
  assumes "zs \<in> interleavings ts"
  shows "mset zs = (\<Sum>t\<leftarrow>ts. mset t)"
  using assms
proof (induction ts arbitrary: zs)
  case Nil
  then show ?case by simp
next
  case (Cons t ts)
  then obtain ys where "ys \<in> interleavings ts" "zs \<in> shuffles t ys" by auto
  then show ?case using Cons.IH [of ys] by (simp add: mset_shuffles)
qed

lemma queue_run_pops:
  assumes "queue_run ops v q = Some (evs, v', q')"
  shows "length (filter (\<lambda>x. x = WaitAndPop) ops) \<le> length (popped evs)"
  using assms
proof (induction ops arbitrary: v q evs)
  case Nil
  then show ?case by simp
next
  case (Cons x ops)
  show ?case
  proof (cases x)
    case (Push y)
    then obtain evs1 where "queue_run ops v (ThreadSafeQueue_push y q) = Some (evs1, v', q')"
      "evs = Pushed # evs1"
      using Cons.prems by (auto split: option.splits)
    then show ?thesis using Cons.IH Push by simp
  next
    case TryPop
    obtain found v1 q1 where t: "ThreadSafeQueue_tryPop v q = (found, v1, q1)"
      by (cases "ThreadSafeQueue_tryPop v q") auto
    then obtain evs1 where "queue_run ops v1 q1 = Some (evs1, v', q')"
      "evs = (if found then Popped v1 else NotFound) # evs1"
      using Cons.prems TryPop by (auto split: option.splits)
    then show ?thesis using Cons.IH [of v1 q1 evs1] TryPop by (cases found) simp_all
  next
    case WaitAndPop
    then obtain v1 q1 evs1 where "queue_run ops v1 q1 = Some (evs1, v', q')"
      "evs = Popped v1 # evs1"
      using Cons.prems by (auto split: option.splits)
    then show ?thesis using Cons.IH [of v1 q1 evs1] WaitAndPop by simp
  qed
qed

lemma producer_consumer:
  assumes "sched \<in> shuffles (map Push vs) (replicate (length vs) WaitAndPop)"
    and "never_waits sched 0" and "mQueue q = []"
  shows "\<exists>evs v' q'. queue_run sched v q = Some (evs, v', q') \<and> popped evs = vs \<and>
                     ThreadSafeQueue_empty q'"
proof -
  obtain evs v' q' where run: "queue_run sched v q = Some (evs, v', q')"
    and fifo: "popped evs @ mQueue q' = mQueue q @ pushed sched"
    using queue_run_fifo [of sched q v] assms(2,3) by auto
  have "pushed sched \<in> shuffles (pushed (map Push vs)) (pushed (replicate (length vs) WaitAndPop))"
    using assms(1) by (rule pushed_shuffles)
  moreover have "pushed (map Push vs) = vs" by (induction vs) simp_all
  moreover have "pushed (replicate n (WaitAndPop :: 'a queue_op)) = []" for n
    by (induction n) simp_all
  ultimately have ps: "pushed sched = vs" by simp
  have "filter (\<lambda>x. x = WaitAndPop) sched
        \<in> shuffles (filter (\<lambda>x. x = WaitAndPop) (map Push vs))
                   (filter (\<lambda>x. x = WaitAndPop) (replicate (length vs) WaitAndPop))"
    using assms(1) filter_shuffles [of "\<lambda>x. x = WaitAndPop" "map Push vs"
        "replicate (length vs) WaitAndPop"]
    by blast
  moreover have "filter (\<lambda>x. x = WaitAndPop) (map Push vs) = []"
    by (induction vs) simp_all
  ultimately have "length (filter (\<lambda>x. x = WaitAndPop) sched) = length vs"
    by simp
  then have "length vs \<le> length (popped evs)"
    using queue_run_pops [OF run] by simp
  moreover have "length (popped evs) + length (mQueue q') = length vs"
    using fifo ps assms(3) by (metis append_Nil length_append)
  ultimately have "length (mQueue q') = 0" by linarith
  then have "mQueue q' = []" by simp
  then show ?thesis using run fifo ps assms(3) by (simp add: ThreadSafeQueue_empty_def)
qed

lemma never_waits_splice:
  "never_waits (splice (map Push vs) (replicate (length vs) WaitAndPop)) n"
  by (induction vs arbitrary: n) simp_all

section \<open>The claims about the circular buffer\<close>

text \<open>
  C1 (no loss, no duplication): starting from an empty buffer, writing a byte sequence
  of length \<open>n \<le> capacity\<close> returns \<open>n\<close>, and reading \<open>n\<close> bytes back returns \<open>n\<close> and
  stores exactly the written bytes, in order, in the first \<open>n\<close> cells of the caller's
  array.
\<close>

theorem C1_write_then_read_roundtrip:
  assumes "Buffer_wf b" and "Buffer_available b = 0"
    and "length data \<le> Buffer_capacity b" and "length data \<le> length dest"
  shows "\<exists>b1 b2. Buffer_write data (length data) b = Inr (length data, b1) \<and>
                 Buffer_read dest (length data) b1 =
                   Inr (length data, data @ drop (length data) dest, b2)"
proof -
  let ?n = "length data"
  have a0: "Buffer_getAvailableInternal b = 0" using assms(2) by (simp add: Buffer_available_def)
  have k: "min ?n (mCapacity b - Buffer_getAvailableInternal b) = ?n"
    using assms(3) a0 by (simp add: Buffer_capacity_def)
  have c0: "Buffer_contents b = []"
    using length_Buffer_contents [OF assms(1)] a0 by simp
  obtain b1 where w: "Buffer_write data ?n b = Inr (?n, b1)" and wf1: "Buffer_wf b1"
    and a1: "Buffer_getAvailableInternal b1 = ?n" and c1: "Buffer_contents b1 = data"
    using Buffer_write_spec [OF assms(1), of ?n data] k a0 c0 by auto
  have k1: "min ?n (Buffer_getAvailableInternal b1) = ?n" using a1 by simp
  obtain b2 where "Buffer_read dest ?n b1 = Inr (?n, data @ drop ?n dest, b2)"
    using Buffer_read_spec [OF wf1, of ?n dest] k1 assms(4) c1 by auto
  then show ?thesis using w by blast
qed

theorem C1_write_then_read_roundtrip_witness:
  "\<exists>b1 b2.
     Buffer_write [1, 2, 3] 3
       \<lparr>mBuffer = [9, 9, 9, 9], mHead = 2, mTail = 2, mIsFull = False, mCapacity = 4\<rparr>
       = Inr (3, b1) \<and>
     Buffer_read [0, 0, 0, 0, 0] 3 b1 = Inr (3, [1, 2, 3, 0, 0], b2)"
  using C1_write_then_read_roundtrip
    [of "\<lparr>mBuffer = [9, 9, 9, 9], mHead = 2, mTail = 2, mIsFull = False, mCapacity = 4\<rparr>"
        "[1, 2, 3]" "[0, 0, 0, 0, 0]"]
  by (simp add: Buffer_wf_def Buffer_available_def Buffer_capacity_def
      Buffer_getAvailableInternal_def size_sub_def size_range_def numeral_3_eq_3)

text \<open>
  C2 (wrap-around): on a capacity-10 buffer, write \<open>{1..8}\<close>, read 6, write \<open>{9..12}\<close>,
  read 6. The counts returned, the values of \<open>available()\<close> in between and the bytes read
  are those of the scenario, and the write cursor ends at index 2, past the physical end
  of the storage. It holds for both implementations.
\<close>

theorem C2_wrap_around_scenario:
  "(\<exists>b. Buffer_run
          [Write [1, 2, 3, 4, 5, 6, 7, 8] 8, Available, Read [0, 0, 0, 0, 0, 0, 0, 0] 6,
           Available, Write [9, 10, 11, 12] 4, Available, Read [0, 0, 0, 0, 0, 0] 6]
          (new_Buffer 10)
        = Inr ([Written 8, Avail 8, ReadOut 6 [1, 2, 3, 4, 5, 6, 0, 0], Avail 2, Written 4,
                Avail 6, ReadOut 6 [7, 8, 9, 10, 11, 12]], b)
        \<and> mHead b = 2) \<and>
   (\<exists>c. CountBuffer_run
          [Write [1, 2, 3, 4, 5, 6, 7, 8] 8, Available, Read [0, 0, 0, 0, 0, 0, 0, 0] 6,
           Available, Write [9, 10, 11, 12] 4, Available, Read [0, 0, 0, 0, 0, 0] 6]
          (new_CountBuffer 10)
        = Inr ([Written 8, Avail 8, ReadOut 6 [1, 2, 3, 4, 5, 6, 0, 0], Avail 2, Written 4,
                Avail 6, ReadOut 6 [7, 8, 9, 10, 11, 12]], c)
        \<and> m_writePos c = 2)"
proof
  define B0 :: Buffer where "B0 = \<lparr>mBuffer = [0, 0, 0, 0, 0, 0, 0, 0, 0, 0], mHead = 0,
    mTail = 0, mIsFull = False, mCapacity = 10\<rparr>"
  define B1 :: Buffer where "B1 = \<lparr>mBuffer = [1, 2, 3, 4, 5, 6, 7, 8, 0, 0], mHead = 8,
    mTail = 0, mIsFull = False, mCapacity = 10\<rparr>"
  define B2 :: Buffer where "B2 = \<lparr>mBuffer = [1, 2, 3, 4, 5, 6, 7, 8, 0, 0], mHead = 8,
    mTail = 6, mIsFull = False, mCapacity = 10\<rparr>"
  define B3 :: Buffer where "B3 = \<lparr>mBuffer = [11, 12, 3, 4, 5, 6, 7, 8, 9, 10], mHead = 2,
    mTail = 6, mIsFull = False, mCapacity = 10\<rparr>"
  define B4 :: Buffer where "B4 = \<lparr>mBuffer = [11, 12, 3, 4, 5, 6, 7, 8, 9, 10], mHead = 2,
    mTail = 2, mIsFull = False, mCapacity = 10\<rparr>"
  have nb: "new_Buffer 10 = B0"
    by (simp add: new_Buffer_def B0_def numeral_eq_Suc)
  have w1: "Buffer_write [1, 2, 3, 4, 5, 6, 7, 8] 8 B0 = Inr (8, B1)"
    by (simp add: B0_def B1_def Buffer_write_def Buffer_getAvailableInternal_def
        Buffer_write_loop.simps size_add_def size_sub_def size_range_def)
  have r1: "Buffer_read [0, 0, 0, 0, 0, 0, 0, 0] 6 B1 = Inr (6, [1, 2, 3, 4, 5, 6, 0, 0], B2)"
    by (simp add: B1_def B2_def Buffer_read_def Buffer_getAvailableInternal_def
        Buffer_read_loop.simps size_add_def size_sub_def size_range_def)
  have w2: "Buffer_write [9, 10, 11, 12] 4 B2 = Inr (4, B3)"
    by (simp add: B2_def B3_def Buffer_write_def Buffer_getAvailableInternal_def
        Buffer_write_loop.simps size_add_def size_sub_def size_range_def)
  have r2: "Buffer_read [0, 0, 0, 0, 0, 0] 6 B3 = Inr (6, [7, 8, 9, 10, 11, 12], B4)"
    by (simp add: B3_def B4_def Buffer_read_def Buffer_getAvailableInternal_def
        Buffer_read_loop.simps size_add_def size_sub_def size_range_def)
  have av: "Buffer_available B1 = 8" "Buffer_available B2 = 2" "Buffer_available B3 = 6"
    by (simp_all add: B1_def B2_def B3_def Buffer_available_def Buffer_getAvailableInternal_def
        size_add_def size_sub_def size_range_def)
  have "mHead B4 = 2" by (simp add: B4_def)
  then show "\<exists>b. Buffer_run
          [Write [1, 2, 3, 4, 5, 6, 7, 8] 8, Available, Read [0, 0, 0, 0, 0, 0, 0, 0] 6,
           Available, Write [9, 10, 11, 12] 4, Available, Read [0, 0, 0, 0, 0, 0] 6]
          (new_Buffer 10)
        = Inr ([Written 8, Avail 8, ReadOut 6 [1, 2, 3, 4, 5, 6, 0, 0], Avail 2, Written 4,
                Avail 6, ReadOut 6 [7, 8, 9, 10, 11, 12]], b)
        \<and> mHead b = 2"
    by (simp add: nb w1 r1 w2 r2 av)
  show "\<exists>c. CountBuffer_run
          [Write [1, 2, 3, 4, 5, 6, 7, 8] 8, Available, Read [0, 0, 0, 0, 0, 0, 0, 0] 6,
           Available, Write [9, 10, 11, 12] 4, Available, Read [0, 0, 0, 0, 0, 0] 6]
          (new_CountBuffer 10)
        = Inr ([Written 8, Avail 8, ReadOut 6 [1, 2, 3, 4, 5, 6, 0, 0], Avail 2, Written 4,
                Avail 6, ReadOut 6 [7, 8, 9, 10, 11, 12]], c)
        \<and> m_writePos c = 2"
    by (simp add: new_CountBuffer_def CountBuffer_write_def CountBuffer_read_def
        CountBuffer_getAvailable_def memcpy_def Let_def
        size_add_def size_sub_def size_range_def)
qed

text \<open>
  C3 (partial write): \<open>write(data, len)\<close> returns without a fault; the count it returns is
  \<open>min len (capacity - occupied)\<close>, which is 0 on a full buffer and \<open>len\<close> when there is
  room for all; exactly that many leading bytes of \<open>data\<close> are appended to the stream
  held by the buffer, so \<open>available()\<close> grows by the count. In particular a capacity-10
  buffer holding 8 bytes takes 2 of 5 bytes and then holds 10. It holds for both
  implementations.
\<close>

theorem C3_write_takes_what_fits:
  assumes "Buffer_wf b" and "CountBuffer_wf c" and "len \<le> length data"
  shows "(\<exists>b'. Buffer_write data len b
                  = Inr (min len (Buffer_capacity b - Buffer_available b), b') \<and>
               Buffer_contents b'
                 = Buffer_contents b @ take (min len (Buffer_capacity b - Buffer_available b)) data \<and>
               Buffer_available b'
                 = Buffer_available b + min len (Buffer_capacity b - Buffer_available b) \<and>
               (Buffer_capacity b = 10 \<and> Buffer_available b = 8 \<and> len = 5 \<longrightarrow>
                  Buffer_write data len b = Inr (2, b') \<and> Buffer_available b' = 10)) \<and>
         (\<exists>c'. CountBuffer_write data len c
                  = Inr (min len (m_capacity c - CountBuffer_getAvailable c), c') \<and>
               CountBuffer_contents c'
                 = CountBuffer_contents c
                   @ take (min len (m_capacity c - CountBuffer_getAvailable c)) data \<and>
               CountBuffer_getAvailable c'
                 = CountBuffer_getAvailable c + min len (m_capacity c - CountBuffer_getAvailable c) \<and>
               (m_capacity c = 10 \<and> CountBuffer_getAvailable c = 8 \<and> len = 5 \<longrightarrow>
                  CountBuffer_write data len c = Inr (2, c') \<and>
                  CountBuffer_getAvailable c' = 10))"
proof
  obtain b' where "Buffer_write data len b
        = Inr (min len (mCapacity b - Buffer_getAvailableInternal b), b')"
    "Buffer_getAvailableInternal b'
        = Buffer_getAvailableInternal b + min len (mCapacity b - Buffer_getAvailableInternal b)"
    "Buffer_contents b'
        = Buffer_contents b @ take (min len (mCapacity b - Buffer_getAvailableInternal b)) data"
    using Buffer_write_spec [OF assms(1,3)] by blast
  then show "\<exists>b'. Buffer_write data len b
                  = Inr (min len (Buffer_capacity b - Buffer_available b), b') \<and>
               Buffer_contents b'
                 = Buffer_contents b @ take (min len (Buffer_capacity b - Buffer_available b)) data \<and>
               Buffer_available b'
                 = Buffer_available b + min len (Buffer_capacity b - Buffer_available b) \<and>
               (Buffer_capacity b = 10 \<and> Buffer_available b = 8 \<and> len = 5 \<longrightarrow>
                  Buffer_write data len b = Inr (2, b') \<and> Buffer_available b' = 10)"
    by (intro exI [of _ b']) (auto simp add: Buffer_capacity_def Buffer_available_def)
  obtain c' where "CountBuffer_write data len c = Inr (min len (m_capacity c - m_dataAvailable c), c')"
    "m_dataAvailable c' = m_dataAvailable c + min len (m_capacity c - m_dataAvailable c)"
    "CountBuffer_contents c'
        = CountBuffer_contents c @ take (min len (m_capacity c - m_dataAvailable c)) data"
    using CountBuffer_write_spec [OF assms(2,3)] by blast
  then show "\<exists>c'. CountBuffer_write data len c
                  = Inr (min len (m_capacity c - CountBuffer_getAvailable c), c') \<and>
               CountBuffer_contents c'
                 = CountBuffer_contents c
                   @ take (min len (m_capacity c - CountBuffer_getAvailable c)) data \<and>
               CountBuffer_getAvailable c'
                 = CountBuffer_getAvailable c + min len (m_capacity c - CountBuffer_getAvailable c) \<and>
               (m_capacity c = 10 \<and> CountBuffer_getAvailable c = 8 \<and> len = 5 \<longrightarrow>
                  CountBuffer_write data len c = Inr (2, c') \<and>
                  CountBuffer_getAvailable c' = 10)"
    by (intro exI [of _ c']) (auto simp add: CountBuffer_getAvailable_def)
qed

theorem C3_write_takes_what_fits_witness:
  "(\<exists>b'. Buffer_write [9, 10, 11, 12, 13] 5
            \<lparr>mBuffer = [1, 2, 3, 4, 5, 6, 7, 8, 0, 0], mHead = 8, mTail = 0, mIsFull = False,
             mCapacity = 10\<rparr>
          = Inr (2, b') \<and>
        Buffer_contents b' = [1, 2, 3, 4, 5, 6, 7, 8, 9, 10] \<and> Buffer_available b' = 10) \<and>
   (\<exists>c'. CountBuffer_write [9, 10, 11, 12, 13] 5
            \<lparr>m_buffer = [1, 2, 3, 4, 5, 6, 7, 8, 0, 0], m_readPos = 0, m_writePos = 8,
             m_dataAvailable = 8, m_capacity = 10\<rparr>
          = Inr (2, c') \<and>
        CountBuffer_contents c' = [1, 2, 3, 4, 5, 6, 7, 8, 9, 10] \<and>
        CountBuffer_getAvailable c' = 10)"
proof -
  let ?b = "\<lparr>mBuffer = [1, 2, 3, 4, 5, 6, 7, 8, 0, 0], mHead = 8, mTail = 0, mIsFull = False,
             mCapacity = 10\<rparr> :: Buffer"
  let ?c = "\<lparr>m_buffer = [1, 2, 3, 4, 5, 6, 7, 8, 0, 0], m_readPos = 0, m_writePos = 8,
             m_dataAvailable = 8, m_capacity = 10\<rparr> :: CountBuffer"
  have 1: "Buffer_wf ?b" by (simp add: Buffer_wf_def size_range_def)
  have 2: "CountBuffer_wf ?c" by (simp add: CountBuffer_wf_def vector_max_size_def)
  have 3: "5 \<le> length [9, 10, 11, 12, 13 :: byte]" by simp
  have 4: "Buffer_available ?b = 8" "Buffer_capacity ?b = 10"
    by (simp_all add: Buffer_available_def Buffer_capacity_def Buffer_getAvailableInternal_def
        size_sub_def size_range_def)
  have 5: "Buffer_contents ?b = [1, 2, 3, 4, 5, 6, 7, 8]" "CountBuffer_contents ?c = [1, 2, 3, 4, 5, 6, 7, 8]"
    using 4 by (simp_all add: Buffer_contents_def CountBuffer_contents_def Buffer_available_def)
  show ?thesis
    using C3_write_takes_what_fits [OF 1 2 3]
    by (simp add: 4 5 CountBuffer_getAvailable_def) blast
qed

text \<open>
  C4 (empty versus full): from an empty buffer, one just cleared or any other, a write
  of exactly \<open>capacity()\<close> bytes is taken whole; then \<open>available() = capacity()\<close> and the
  two cursors coincide. A read of as many bytes then returns the written bytes, after
  which \<open>available() = 0\<close> and the cursors coincide again.
\<close>

theorem C4_full_and_empty_told_apart:
  assumes "Buffer_wf b0"
    and "b = Buffer_clear b0 \<or> b = b0 \<and> Buffer_available b0 = 0"
    and "length data = Buffer_capacity b" and "length data \<le> length dest"
  shows "\<exists>b1 b2. Buffer_write data (length data) b = Inr (length data, b1) \<and>
                 Buffer_available b1 = Buffer_capacity b1 \<and> mHead b1 = mTail b1 \<and>
                 Buffer_read dest (length data) b1
                   = Inr (length data, data @ drop (length data) dest, b2) \<and>
                 Buffer_available b2 = 0 \<and> mHead b2 = mTail b2"
proof -
  let ?n = "length data"
  have wf: "Buffer_wf b" and a0: "Buffer_getAvailableInternal b = 0"
    using assms(1,2) Buffer_wf_clear [OF assms(1)] avail_clear [OF assms(1)]
    by (auto simp add: Buffer_available_def)
  have k: "min ?n (mCapacity b - Buffer_getAvailableInternal b) = ?n"
    using assms(3) a0 by (simp add: Buffer_capacity_def)
  have c0: "Buffer_contents b = []"
    using length_Buffer_contents [OF wf] a0 by simp
  obtain b1 where w: "Buffer_write data ?n b = Inr (?n, b1)" and wf1: "Buffer_wf b1"
    and cap1: "mCapacity b1 = mCapacity b"
    and a1: "Buffer_getAvailableInternal b1 = ?n" and c1: "Buffer_contents b1 = data"
    using Buffer_write_spec [OF wf, of ?n data] k a0 c0 by auto
  have full1: "Buffer_getAvailableInternal b1 = mCapacity b1"
    using a1 cap1 assms(3) by (simp add: Buffer_capacity_def)
  have k1: "min ?n (Buffer_getAvailableInternal b1) = ?n" using a1 by simp
  obtain b2 where r: "Buffer_read dest ?n b1 = Inr (?n, data @ drop ?n dest, b2)"
    and wf2: "Buffer_wf b2" and a2: "Buffer_getAvailableInternal b2 = 0"
    using Buffer_read_spec [OF wf1, of ?n dest] k1 assms(4) c1 a1 by auto
  have "mHead b1 = mTail b1" using cursors_meet [OF wf1] full1 by simp
  moreover have "mHead b2 = mTail b2" using cursors_meet [OF wf2] a2 by simp
  ultimately show ?thesis
    using w r full1 a2 by (auto simp add: Buffer_available_def Buffer_capacity_def)
qed

theorem C4_full_and_empty_told_apart_witness:
  "\<exists>b1 b2.
     Buffer_write [1, 2, 3] 3
       (Buffer_clear \<lparr>mBuffer = [7, 8, 9], mHead = 1, mTail = 2, mIsFull = False,
                      mCapacity = 3\<rparr>)
       = Inr (3, b1) \<and>
     Buffer_available b1 = Buffer_capacity b1 \<and> mHead b1 = mTail b1 \<and>
     Buffer_read [0, 0, 0] 3 b1 = Inr (3, [1, 2, 3], b2) \<and>
     Buffer_available b2 = 0 \<and> mHead b2 = mTail b2"
proof -
  let ?b0 = "\<lparr>mBuffer = [7, 8, 9], mHead = 1, mTail = 2, mIsFull = False, mCapacity = 3\<rparr> :: Buffer"
  have 1: "Buffer_wf ?b0" by (simp add: Buffer_wf_def size_range_def)
  have 2: "Buffer_clear ?b0 = Buffer_clear ?b0 \<or> Buffer_clear ?b0 = ?b0 \<and> Buffer_available ?b0 = 0"
    by simp
  have 3: "length [1, 2, 3 :: byte] = Buffer_capacity (Buffer_clear ?b0)"
    by (simp add: Buffer_capacity_def Buffer_clear_def)
  have 4: "length [1, 2, 3 :: byte] \<le> length [0, 0, 0 :: byte]" by simp
  show ?thesis
    using C4_full_and_empty_told_apart [OF 1 2 3 4] by (simp add: numeral_3_eq_3)
qed

text \<open>
  C5, as the specification states it: in every state the cursors lie in \<open>[0, C)\<close> and the
  buffer is full iff \<open>occupied = C\<close>. A buffer constructed with capacity 0 has both
  cursors at 0, which is not below the capacity, and it is never flagged full although
  \<open>occupied = C = 0\<close>.
\<close>

theorem C5_zero_capacity_counterexample:
  "\<not> mHead (new_Buffer 0) < Buffer_capacity (new_Buffer 0) \<and>
   \<not> mTail (new_Buffer 0) < Buffer_capacity (new_Buffer 0) \<and>
   \<not> Buffer_isFullInternal (new_Buffer 0) \<and>
   Buffer_available (new_Buffer 0) = Buffer_capacity (new_Buffer 0)"
  by (simp add: new_Buffer_def Buffer_capacity_def Buffer_isFullInternal_def
      Buffer_available_def Buffer_getAvailableInternal_def size_sub_def size_range_def)

text \<open>
  C5, amended: every sequence of well-formed \<open>write\<close>, \<open>read\<close>, \<open>clear\<close> and
  \<open>available\<close> calls on a constructed buffer returns without a fault, and in the state
  it leaves \<open>available() \<le> capacity()\<close> and the buffer is empty iff \<open>occupied = 0\<close>;
  when the capacity is positive, moreover, both cursors lie in \<open>[0, C)\<close> and the buffer
  is full iff \<open>occupied = C\<close>. Every prefix of a sequence is a sequence, so this holds
  after each call.
\<close>

theorem C5_invariants_hold_always:
  assumes "capacityBytes < size_range" and "\<forall>x \<in> set ops. buffer_op_ok x"
  shows "\<exists>evs b. Buffer_run ops (new_Buffer capacityBytes) = Inr (evs, b) \<and>
                  Buffer_capacity b = capacityBytes \<and>
                  Buffer_available b \<le> Buffer_capacity b \<and>
                  (Buffer_isEmptyInternal b \<longleftrightarrow> Buffer_available b = 0) \<and>
                  (0 < capacityBytes \<longrightarrow>
                     mHead b < Buffer_capacity b \<and> mTail b < Buffer_capacity b \<and>
                     (Buffer_isFullInternal b \<longleftrightarrow> Buffer_available b = Buffer_capacity b))"
proof -
  obtain evs b where run: "Buffer_run ops (new_Buffer capacityBytes) = Inr (evs, b)"
    and wf: "Buffer_wf b" and cap: "mCapacity b = capacityBytes"
    using Buffer_run_refines [OF Buffer_wf_new [OF assms(1)] assms(2)]
    by (auto simp add: new_Buffer_def)
  have "Buffer_available b \<le> Buffer_capacity b"
    using avail_le [OF wf] by (simp add: Buffer_available_def Buffer_capacity_def)
  moreover have "Buffer_isEmptyInternal b \<longleftrightarrow> Buffer_available b = 0"
    using empty_iff_avail0 [OF wf] by (simp add: Buffer_available_def)
  moreover have "mHead b < Buffer_capacity b \<and> mTail b < Buffer_capacity b \<and>
      (Buffer_isFullInternal b \<longleftrightarrow> Buffer_available b = Buffer_capacity b)"
    if "0 < capacityBytes"
    using that wf cap avail_char(3) [OF wf]
    by (simp add: Buffer_wf_def Buffer_capacity_def Buffer_available_def Buffer_isFullInternal_def)
  ultimately show ?thesis using run cap by (auto simp add: Buffer_capacity_def)
qed

theorem C5_invariants_hold_always_witness:
  "\<exists>evs b. Buffer_run [Write [1, 2, 3] 3, Read [0, 0] 2, Write [4, 5, 6] 3, Clear, Write [7] 1]
             (new_Buffer 4) = Inr (evs, b) \<and>
           Buffer_capacity b = 4 \<and> Buffer_available b \<le> Buffer_capacity b \<and>
           (Buffer_isEmptyInternal b \<longleftrightarrow> Buffer_available b = 0) \<and>
           mHead b < Buffer_capacity b \<and> mTail b < Buffer_capacity b \<and>
           (Buffer_isFullInternal b \<longleftrightarrow> Buffer_available b = Buffer_capacity b)"
proof -
  have 1: "(4 :: nat) < size_range" by (simp add: size_range_def)
  have 2: "\<forall>x \<in> set [Write [1, 2, 3] 3, Read [0, 0] 2, Write [4, 5, 6] 3, Clear, Write [7] 1].
             buffer_op_ok x"
    by simp
  show ?thesis using C5_invariants_hold_always [OF 1 2] by simp
qed

text \<open>
  C8 (the two implementations agree): run on buffers constructed with the same capacity,
  every sequence of well-formed calls returns without a fault in both implementations and
  hands back the same results call by call: the counts of \<open>write\<close> and \<open>read\<close>, the
  caller's array after each \<open>read\<close> and the value of \<open>available()\<close>.
\<close>

theorem C8_implementations_agree:
  assumes "capacityBytes \<le> vector_max_size" and "\<forall>x \<in> set ops. buffer_op_ok x"
  shows "\<exists>evs b c. Buffer_run ops (new_Buffer capacityBytes) = Inr (evs, b) \<and>
                    CountBuffer_run ops (new_CountBuffer capacityBytes) = Inr (evs, c) \<and>
                    Buffer_available b = CountBuffer_getAvailable c \<and>
                    Buffer_contents b = CountBuffer_contents c"
proof -
  have lt: "capacityBytes < size_range" using assms(1) by (rule vector_max_size_lt)
  obtain b where rb: "Buffer_run ops (new_Buffer capacityBytes)
        = Inr (fst (spec_run capacityBytes ops []), b)"
    and wfb: "Buffer_wf b" and xb: "Buffer_contents b = snd (spec_run capacityBytes ops [])"
    using Buffer_run_refines [OF Buffer_wf_new [OF lt] assms(2)] Buffer_contents_new [OF lt]
    by (auto simp add: new_Buffer_def)
  obtain c where rc: "CountBuffer_run ops (new_CountBuffer capacityBytes)
        = Inr (fst (spec_run capacityBytes ops []), c)"
    and wfc: "CountBuffer_wf c" and xc: "CountBuffer_contents c = snd (spec_run capacityBytes ops [])"
    using CountBuffer_run_refines [OF CountBuffer_wf_new [OF assms(1)] assms(2)]
      CountBuffer_contents_new [of capacityBytes]
    by (auto simp add: new_CountBuffer_def)
  have "Buffer_available b = CountBuffer_getAvailable c"
    using length_Buffer_contents [OF wfb] length_CountBuffer_contents [OF wfc] xb xc
    by (simp add: Buffer_available_def CountBuffer_getAvailable_def)
  then show ?thesis using rb rc xb xc by auto
qed

theorem C8_implementations_agree_witness:
  "\<exists>evs b c.
     Buffer_run [Write [1, 2, 3] 3, Read [0, 0] 2, Write [4, 5, 6] 3, Available, Read [0, 0, 0, 0] 4]
       (new_Buffer 4) = Inr (evs, b) \<and>
     CountBuffer_run [Write [1, 2, 3] 3, Read [0, 0] 2, Write [4, 5, 6] 3, Available, Read [0, 0, 0, 0] 4]
       (new_CountBuffer 4) = Inr (evs, c) \<and>
     Buffer_available b = CountBuffer_getAvailable c \<and>
     Buffer_contents b = CountBuffer_contents c"
proof -
  have 1: "(4 :: nat) \<le> vector_max_size" by (simp add: vector_max_size_def)
  have 2: "\<forall>x \<in> set [Write [1, 2, 3] 3, Read [0, 0] 2, Write [4, 5, 6] 3, Available, Read [0, 0, 0, 0] 4].
             buffer_op_ok x"
    by simp
  show ?thesis using C8_implementations_agree [OF 1 2] by simp
qed

text \<open>
  C10 (ledger): after every sequence of well-formed calls on a constructed buffer,
  \<open>available()\<close> is the sum of the counts returned by the writes minus the sum of the
  counts returned by the reads, counted from the construction or the last \<open>clear()\<close>.
  It holds for both implementations.
\<close>

theorem C10_available_is_the_ledger:
  assumes "capacityBytes \<le> vector_max_size" and "\<forall>x \<in> set ops. buffer_op_ok x"
  shows "(\<exists>evs b. Buffer_run ops (new_Buffer capacityBytes) = Inr (evs, b) \<and>
                   int (Buffer_available b) = ledger evs) \<and>
         (\<exists>evs c. CountBuffer_run ops (new_CountBuffer capacityBytes) = Inr (evs, c) \<and>
                   int (CountBuffer_getAvailable c) = ledger evs)"
proof
  have lt: "capacityBytes < size_range" using assms(1) by (rule vector_max_size_lt)
  have led: "int (length (snd (spec_run capacityBytes ops [])))
        = ledger (fst (spec_run capacityBytes ops []))"
    using spec_run_ledger [OF assms(2), of "[]" capacityBytes] by (simp add: ledger_def)
  obtain b where rb: "Buffer_run ops (new_Buffer capacityBytes)
        = Inr (fst (spec_run capacityBytes ops []), b)"
    and wfb: "Buffer_wf b" and xb: "Buffer_contents b = snd (spec_run capacityBytes ops [])"
    using Buffer_run_refines [OF Buffer_wf_new [OF lt] assms(2)] Buffer_contents_new [OF lt]
    by (auto simp add: new_Buffer_def)
  have "int (Buffer_available b) = ledger (fst (spec_run capacityBytes ops []))"
    using length_Buffer_contents [OF wfb] xb led by (simp add: Buffer_available_def)
  then show "\<exists>evs b. Buffer_run ops (new_Buffer capacityBytes) = Inr (evs, b) \<and>
                   int (Buffer_available b) = ledger evs"
    using rb by blast
  obtain c where rc: "CountBuffer_run ops (new_CountBuffer capacityBytes)
        = Inr (fst (spec_run capacityBytes ops []), c)"
    and wfc: "CountBuffer_wf c" and xc: "CountBuffer_contents c = snd (spec_run capacityBytes ops [])"
    using CountBuffer_run_refines [OF CountBuffer_wf_new [OF assms(1)] assms(2)]
      CountBuffer_contents_new [of capacityBytes]
    by (auto simp add: new_CountBuffer_def)
  have "int (CountBuffer_getAvailable c) = ledger (fst (spec_run capacityBytes ops []))"
    using length_CountBuffer_contents [OF wfc] xc led by (simp add: CountBuffer_getAvailable_def)
  then show "\<exists>evs c. CountBuffer_run ops (new_CountBuffer capacityBytes) = Inr (evs, c) \<and>
                   int (CountBuffer_getAvailable c) = ledger evs"
    using rc by blast
qed

theorem C10_available_is_the_ledger_witness:
  "(\<exists>evs b. Buffer_run [Write [1, 2, 3] 3, Read [0, 0] 2, Write [4, 5, 6] 3, Clear, Write [7] 1]
              (new_Buffer 4) = Inr (evs, b) \<and>
            int (Buffer_available b) = ledger evs) \<and>
   (\<exists>evs c. CountBuffer_run [Write [1, 2, 3] 3, Read [0, 0] 2, Write [4, 5, 6] 3, Clear, Write [7] 1]
              (new_CountBuffer 4) = Inr (evs, c) \<and>
            int (CountBuffer_getAvailable c) = ledger evs)"
proof -
  have 1: "(4 :: nat) \<le> vector_max_size" by (simp add: vector_max_size_def)
  have 2: "\<forall>x \<in> set [Write [1, 2, 3] 3, Read [0, 0] 2, Write [4, 5, 6] 3, Clear, Write [7] 1].
             buffer_op_ok x"
    by simp
  show ?thesis using C10_available_is_the_ledger [OF 1 2] by simp
qed

section \<open>The claims about the thread-safe queue\<close>

text \<open>
  C6 (FIFO): three pushes of 1, 2, 3 followed by three pops by the same thread, with
  \<open>tryPop\<close> or with \<open>waitAndPop\<close>, yield 1, 2, 3 in that order. In general, for every
  sequence of pushes and pops by one thread in which no \<open>waitAndPop\<close> meets an empty
  queue, the sequence returns, and the values popped followed by the values left in the
  queue are the values first in the queue followed by the values pushed, in push order.
\<close>

theorem C6_queue_is_fifo:
  assumes "never_waits ops (length (mQueue q))"
  shows "queue_run [Push 1, Push 2, Push 3, TryPop, TryPop, TryPop] (0 :: int)
           new_ThreadSafeQueue
         = Some ([Pushed, Pushed, Pushed, Popped 1, Popped 2, Popped 3], 3, new_ThreadSafeQueue) \<and>
         queue_run [Push 1, Push 2, Push 3, WaitAndPop, WaitAndPop, WaitAndPop] (0 :: int)
           new_ThreadSafeQueue
         = Some ([Pushed, Pushed, Pushed, Popped 1, Popped 2, Popped 3], 3, new_ThreadSafeQueue) \<and>
         (\<exists>evs v' q'. queue_run ops v q = Some (evs, v', q') \<and>
                      popped evs @ mQueue q' = mQueue q @ pushed ops)"
proof -
  have "queue_run [Push 1, Push 2, Push 3, TryPop, TryPop, TryPop] (0 :: int) new_ThreadSafeQueue
         = Some ([Pushed, Pushed, Pushed, Popped 1, Popped 2, Popped 3], 3, new_ThreadSafeQueue)"
    by (simp add: new_ThreadSafeQueue_def ThreadSafeQueue_push_def ThreadSafeQueue_tryPop_def)
  moreover have "queue_run [Push 1, Push 2, Push 3, WaitAndPop, WaitAndPop, WaitAndPop] (0 :: int)
           new_ThreadSafeQueue
         = Some ([Pushed, Pushed, Pushed, Popped 1, Popped 2, Popped 3], 3, new_ThreadSafeQueue)"
    by (simp add: new_ThreadSafeQueue_def ThreadSafeQueue_push_def ThreadSafeQueue_waitAndPop_def)
  ultimately show ?thesis using queue_run_fifo [OF assms] by simp
qed

theorem C6_queue_is_fifo_witness:
  "\<exists>evs v' q'.
     queue_run [Push (5 :: int), TryPop, TryPop, Push 6, Push 7, WaitAndPop, Push 8, TryPop] 0
       new_ThreadSafeQueue = Some (evs, v', q') \<and>
     popped evs @ mQueue q' = [5, 6, 7, 8]"
proof -
  have "never_waits [Push (5 :: int), TryPop, TryPop, Push 6, Push 7, WaitAndPop, Push 8, TryPop]
          (length (mQueue (new_ThreadSafeQueue :: int ThreadSafeQueue)))"
    by (simp add: new_ThreadSafeQueue_def)
  from C6_queue_is_fifo [OF this, of 0] show ?thesis
    by (simp add: new_ThreadSafeQueue_def)
qed

text \<open>
  C7 (\<open>tryPop\<close>): on a newly constructed queue \<open>tryPop\<close> returns \<open>false\<close> and leaves the
  caller's variable and the queue as they were; on a queue whose front is \<open>x\<close> it returns
  \<open>true\<close>, assigns \<open>x\<close> and removes it. The call is a total function of the queue: it has
  no wait in it.
\<close>

theorem C7_tryPop_empty_and_nonempty:
  "ThreadSafeQueue_tryPop v new_ThreadSafeQueue = (False, v, new_ThreadSafeQueue) \<and>
   ThreadSafeQueue_tryPop v \<lparr>mQueue = x # xs\<rparr> = (True, x, \<lparr>mQueue = xs\<rparr>)"
  by (simp add: ThreadSafeQueue_tryPop_def new_ThreadSafeQueue_def)

text \<open>
  C9 (no loss, no duplication under concurrency): for every interleaving of the call
  sequences of any number of threads that the queue allows, all calls return; the values
  popped, followed by the values left in the queue, are the values pushed, in the order
  the pushes took effect, which keeps every thread's own push order; as multisets, what
  was popped and what is left are exactly what the threads pushed. In particular, with
  one producer pushing 0..999 and one consumer calling \<open>waitAndPop\<close> 1000 times, the
  consumer receives 0..999 in order and leaves the queue empty.
\<close>

theorem C9_no_loss_no_duplication:
  assumes "sched \<in> interleavings threads" and "never_waits sched 0"
    and "pc \<in> shuffles (map Push [0..999]) (replicate 1000 WaitAndPop)"
    and "never_waits pc 0"
  shows "(\<exists>evs v' q'. queue_run sched v new_ThreadSafeQueue = Some (evs, v', q') \<and>
            popped evs @ mQueue q' = pushed sched \<and>
            pushed sched \<in> interleavings (map pushed threads) \<and>
            mset (popped evs) + mset (mQueue q') = (\<Sum>t\<leftarrow>threads. mset (pushed t))) \<and>
         (\<exists>evs w' q'. queue_run pc (w :: int) new_ThreadSafeQueue = Some (evs, w', q') \<and>
            popped evs = [0..999] \<and> ThreadSafeQueue_empty q')"
proof
  obtain evs v' q' where run: "queue_run sched v new_ThreadSafeQueue = Some (evs, v', q')"
    and fifo: "popped evs @ mQueue q' = pushed sched"
    using queue_run_fifo [of sched new_ThreadSafeQueue v] assms(2)
    by (auto simp add: new_ThreadSafeQueue_def)
  have il: "pushed sched \<in> interleavings (map pushed threads)"
    using assms(1) by (rule pushed_interleavings)
  have "mset (popped evs) + mset (mQueue q') = mset (pushed sched)"
    using fifo by (metis mset_append)
  also have "\<dots> = (\<Sum>t\<leftarrow>map pushed threads. mset t)"
    using il by (rule mset_interleavings)
  also have "\<dots> = (\<Sum>t\<leftarrow>threads. mset (pushed t))"
    by (simp add: comp_def)
  finally show "\<exists>evs v' q'. queue_run sched v new_ThreadSafeQueue = Some (evs, v', q') \<and>
            popped evs @ mQueue q' = pushed sched \<and>
            pushed sched \<in> interleavings (map pushed threads) \<and>
            mset (popped evs) + mset (mQueue q') = (\<Sum>t\<leftarrow>threads. mset (pushed t))"
    using run fifo il by blast
  have "pc \<in> shuffles (map Push [0..999]) (replicate (length [0..999 :: int]) WaitAndPop)"
    using assms(3) by simp
  then show "\<exists>evs w' q'. queue_run pc w new_ThreadSafeQueue = Some (evs, w', q') \<and>
            popped evs = [0..999] \<and> ThreadSafeQueue_empty q'"
    using assms(4) by (intro producer_consumer) (simp_all add: new_ThreadSafeQueue_def)
qed

theorem C9_no_loss_no_duplication_witness:
  "(\<exists>evs v' q'.
      queue_run [Push 1, TryPop, Push 3, Push 2, WaitAndPop] (0 :: int) new_ThreadSafeQueue
        = Some (evs, v', q') \<and>
      popped evs @ mQueue q' = [1, 3, 2] \<and>
      mset (popped evs) + mset (mQueue q') = {#3, 1, 2#}) \<and>
   (\<exists>evs w' q'.
      queue_run (splice (map Push [0..999]) (replicate 1000 WaitAndPop)) (0 :: int)
        new_ThreadSafeQueue = Some (evs, w', q') \<and>
      popped evs = [0..999] \<and> ThreadSafeQueue_empty q')"
proof -
  have 1: "[Push 1, TryPop, Push 3, Push 2, WaitAndPop]
            \<in> interleavings [[Push (1 :: int), Push 2], [TryPop, WaitAndPop], [Push 3]]"
    by (auto simp add: image_iff)
  have 2: "never_waits [Push (1 :: int), TryPop, Push 3, Push 2, WaitAndPop] 0"
    by simp
  have 3: "splice (map Push [0..999 :: int]) (replicate 1000 WaitAndPop)
            \<in> shuffles (map Push [0..999]) (replicate 1000 WaitAndPop)"
    by simp
  have 4: "never_waits (splice (map Push [0..999 :: int]) (replicate 1000 WaitAndPop)) 0"
    using never_waits_splice [of "[0..999 :: int]" 0] by simp
  show ?thesis
    using C9_no_loss_no_duplication [OF 1 2 3 4, of 0 0]
    by (simp del: queue_run.simps)
qed

end
